theory Spec2Isabelle
  imports Main
begin

chapter \<open>sushiscan-dl: the download orchestration pipeline\<close>

text \<open>
  The repository holds two variants of the same program. The variant with French
  messages (the file of 247 lines) is embedded under the names of its source; the
  variant in \<^verbatim>\<open>src/index.ts\<close> is embedded under the same names with the suffix
  \<open>_index\<close>. Strings are lists of characters; a character stands for one code unit
  below 256. Console decoration (colours, check marks, accents) is left out of the
  logged texts.
\<close>

section \<open>JavaScript values used by the program\<close>

datatype js_error =
    Error string
  | TypeError string
  | SyntaxError string
  | TimeoutError string

fun message :: "js_error \<Rightarrow> string" where
  "message (Error m) = m"
| "message (TypeError m) = m"
| "message (SyntaxError m) = m"
| "message (TimeoutError m) = m"

text \<open>A line written by \<^verbatim>\<open>console.log\<close> or by \<^verbatim>\<open>console.error\<close>.\<close>

datatype line = Log string | Err string

fun is_Err :: "line \<Rightarrow> bool" where
  "is_Err (Err m) = True"
| "is_Err (Log m) = False"

section \<open>The three regular expressions\<close>

text \<open>
  A matcher maps the rest of the input to the list of its alternatives, each a capture
  with the input left over, in the order in which a backtracking engine tries them:
  a greedy quantifier offers its longest repetition first. A pattern is a sequence of
  matchers, written as a list comprehension; \<open>search\<close> is the unanchored search of
  \<^verbatim>\<open>String.prototype.match\<close> without the \<^verbatim>\<open>g\<close> flag: the leftmost start position
  that matches, and there the first alternative; \<open>None\<close> stands for \<^verbatim>\<open>null\<close>.
\<close>

definition is_digit :: "char \<Rightarrow> bool" where
  "is_digit c = (c \<in> set ''0123456789'')"

definition is_word :: "char \<Rightarrow> bool" where
  "is_word c =
     (c \<in> set ''abcdefghijklmnopqrstuvwxyzABCDEFGHIJKLMNOPQRSTUVWXYZ0123456789_'')"

text \<open>\<^verbatim>\<open>\s\<close>: tab, line feed, vertical tab, form feed, carriage return, space, no-break space.\<close>

definition is_space :: "char \<Rightarrow> bool" where
  "is_space c =
     (c \<in> set [CHR 0x09, CHR 0x0A, CHR 0x0B, CHR 0x0C, CHR 0x0D, CHR '' '', CHR 0xA0])"

text \<open>\<^verbatim>\<open>.\<close> without the \<^verbatim>\<open>s\<close> flag: any character but a line terminator.\<close>

definition is_dot :: "char \<Rightarrow> bool" where
  "is_dot c = (c \<noteq> CHR 0x0A \<and> c \<noteq> CHR 0x0D)"

text \<open>\<^verbatim>\<open>[^/-]\<close> and \<^verbatim>\<open>[^\]]\<close>.\<close>

definition is_folder_char :: "char \<Rightarrow> bool" where
  "is_folder_char c = (c \<noteq> CHR ''/'' \<and> c \<noteq> CHR ''-'')"

definition is_not_bracket :: "char \<Rightarrow> bool" where
  "is_not_bracket c = (c \<noteq> CHR '']'')"

text \<open>A literal string: one alternative when the input starts with it, none otherwise.\<close>

definition lit :: "string \<Rightarrow> string \<Rightarrow> string list" where
  "lit p s = (if take (length p) s = p then [drop (length p) s] else [])"

text \<open>
  A character class under \<^verbatim>\<open>*\<close> and under \<^verbatim>\<open>+\<close>: every prefix of the longest run of
  characters of the class (for \<^verbatim>\<open>+\<close>, every prefix but the empty one), the longest
  first. A character class under \<^verbatim>\<open>?\<close>: the character taken, then the character left.
\<close>

fun many0 :: "(char \<Rightarrow> bool) \<Rightarrow> string \<Rightarrow> (string \<times> string) list" where
  "many0 P [] = [([], [])]"
| "many0 P (c # r) =
     (if P c then map (\<lambda>(x, r'). (c # x, r')) (many0 P r) @ [([], c # r)]
      else [([], c # r)])"

definition many1 :: "(char \<Rightarrow> bool) \<Rightarrow> string \<Rightarrow> (string \<times> string) list" where
  "many1 P s = filter (\<lambda>(x, r). x \<noteq> []) (many0 P s)"

definition optional :: "(char \<Rightarrow> bool) \<Rightarrow> string \<Rightarrow> string list" where
  "optional P s = (case s of [] \<Rightarrow> [s] | c # r \<Rightarrow> if P c then [r, s] else [s])"

text \<open>The search tries the pattern at every position of the input, the end included.\<close>

fun search :: "(string \<Rightarrow> 'a list) \<Rightarrow> string \<Rightarrow> 'a option" where
  "search m [] = (case m [] of [] \<Rightarrow> None | x # _ \<Rightarrow> Some x)"
| "search m (c # r) = (case m (c # r) of [] \<Rightarrow> search m r | x # _ \<Rightarrow> Some x)"

text \<open>\<^verbatim>\<open>/wp-content\/upload.+-\d+\.\w+$/\<close>, the filter of the asset section.\<close>

definition asset_filter_at :: "string \<Rightarrow> unit list" where
  "asset_filter_at s =
     [(). r0 \<leftarrow> lit ''wp-content/upload'' s, (x, r1) \<leftarrow> many1 is_dot r0,
          r2 \<leftarrow> lit ''-'' r1, (d, r3) \<leftarrow> many1 is_digit r2, r4 \<leftarrow> lit ''.'' r3,
          (w, r5) \<leftarrow> many1 is_word r4, r5 = []]"

definition asset_filter :: "string \<Rightarrow> bool" where
  "asset_filter u = (search asset_filter_at u \<noteq> None)"

text \<open>\<^verbatim>\<open>/\/([^/-]+)-(\d+)\.\w+$/\<close>, with its two captures: folder and name.\<close>

definition asset_extract_at :: "string \<Rightarrow> (string \<times> string) list" where
  "asset_extract_at s =
     [(f, n). r0 \<leftarrow> lit ''/'' s, (f, r1) \<leftarrow> many1 is_folder_char r0,
          r2 \<leftarrow> lit ''-'' r1, (n, r3) \<leftarrow> many1 is_digit r2, r4 \<leftarrow> lit ''.'' r3,
          (w, r5) \<leftarrow> many1 is_word r4, r5 = []]"

definition asset_extract :: "string \<Rightarrow> (string \<times> string) option" where
  "asset_extract u = search asset_extract_at u"

text \<open>\<^verbatim>\<open>/"images":\s?\[([^\]]*)\]/\<close>, with its capture: the text between the brackets.\<close>

definition images_key :: string where
  "images_key = CHR 0x22 # ''images'' @ [CHR 0x22] @ '':''"

definition manifest_at :: "string \<Rightarrow> string list" where
  "manifest_at s =
     [images. r0 \<leftarrow> lit images_key s, r1 \<leftarrow> optional is_space r0, r2 \<leftarrow> lit ''['' r1,
          (images, r3) \<leftarrow> many0 is_not_bracket r2, r4 \<leftarrow> lit '']'' r3]"

definition manifest_match :: "string \<Rightarrow> string option" where
  "manifest_match body = search manifest_at body"

text \<open>
  \<^verbatim>\<open>String.prototype.split\<close> with a separator of one character: the pieces between
  the separators; the empty string has one piece, the empty string.
\<close>

fun split_on :: "char \<Rightarrow> string \<Rightarrow> string list" where
  "split_on sep [] = [[]]"
| "split_on sep (c # r) =
     (if c = sep then [] # split_on sep r
      else (case split_on sep r of p # ps \<Rightarrow> (c # p) # ps | [] \<Rightarrow> [[c]]))"

section \<open>The cookie file\<close>

record cookie =
  cookie_name :: string
  cookie_value :: string
  cookie_domain :: string
  cookie_path :: string

text \<open>
  The file \<^verbatim>\<open>./cookies.json\<close> as the two functions meet it: its content (\<open>None\<close> when
  it does not exist), and whether reading or writing it throws. \<^verbatim>\<open>JSON.parse\<close>
  followed by the spread into \<^verbatim>\<open>push\<close>, and \<^verbatim>\<open>JSON.stringify\<close>, are parameters
  \<open>parse\<close> and \<open>stringify\<close>.
\<close>

record cookie_fs =
  cookie_file :: "string option"
  read_throws :: "js_error option"
  write_throws :: "js_error option"

definition existsSync :: "cookie_fs \<Rightarrow> bool" where
  "existsSync fs = (cookie_file fs \<noteq> None)"

definition readFileSync :: "cookie_fs \<Rightarrow> js_error + string" where
  "readFileSync fs =
     (case read_throws fs of
        Some e \<Rightarrow> Inl e
      | None \<Rightarrow>
          (case cookie_file fs of
             None \<Rightarrow> Inl (Error ''ENOENT: no such file or directory'')
           | Some data \<Rightarrow> Inr data))"

definition writeFileSync :: "cookie_fs \<Rightarrow> string \<Rightarrow> js_error + cookie_fs" where
  "writeFileSync fs data =
     (case write_throws fs of
        Some e \<Rightarrow> Inl e
      | None \<Rightarrow> Inr (fs\<lparr>cookie_file := Some data\<rparr>))"

text \<open>The body of the \<^verbatim>\<open>try\<close> block of \<open>loadSavedCookies\<close>.\<close>

definition loadSavedCookies_try ::
  "(string \<Rightarrow> js_error + cookie list) \<Rightarrow> cookie_fs \<Rightarrow> js_error + cookie list" where
  "loadSavedCookies_try parse fs =
     (case readFileSync fs of
        Inl e \<Rightarrow> Inl e
      | Inr cookiesData \<Rightarrow> parse cookiesData)"

text \<open>\<open>loadSavedCookies\<close>: the cookies returned and the lines logged.\<close>

definition loadSavedCookies ::
  "(string \<Rightarrow> js_error + cookie list) \<Rightarrow> cookie_fs \<Rightarrow> cookie list \<times> line list" where
  "loadSavedCookies parse fs =
     (if existsSync fs then
        (case loadSavedCookies_try parse fs of
           Inr cs \<Rightarrow> (cs, [Log ''cookies charges depuis le cache''])
         | Inl e \<Rightarrow> ([], [Err (''Erreur de lecture des cookies : '' @ message e)]))
      else ([], []))"

text \<open>\<open>saveCookies\<close>: the file system afterwards and the lines logged.\<close>

definition saveCookies ::
  "(cookie list \<Rightarrow> string) \<Rightarrow> cookie_fs \<Rightarrow> cookie list \<Rightarrow> cookie_fs \<times> line list" where
  "saveCookies stringify fs cookies =
     (case writeFileSync fs (stringify cookies) of
        Inr fs' \<Rightarrow> (fs', [Log ''cookies sauvegardes''])
      | Inl e \<Rightarrow> (fs, [Err (''Erreur de sauvegarde des cookies : '' @ message e)]))"

text \<open>The variant of \<^verbatim>\<open>src/index.ts\<close>: no \<^verbatim>\<open>try\<close>, an exception leaves the function.\<close>

definition loadSavedCookies_index ::
  "(string \<Rightarrow> js_error + cookie list) \<Rightarrow> cookie_fs \<Rightarrow> js_error + cookie list" where
  "loadSavedCookies_index parse fs =
     (if existsSync fs then
        (case readFileSync fs of
           Inl e \<Rightarrow> Inl e
         | Inr data \<Rightarrow> parse data)
      else Inr [])"

definition saveCookies_index ::
  "(cookie list \<Rightarrow> string) \<Rightarrow> cookie_fs \<Rightarrow> cookie list \<Rightarrow> js_error + cookie_fs" where
  "saveCookies_index stringify fs cookies = writeFileSync fs (stringify cookies)"

section \<open>The session bootstrap\<close>

text \<open>
  What the browser does is the environment of \<open>preloadCookies\<close>: whether
  \<^verbatim>\<open>page.goto\<close> throws, the title read at each evaluation of the loop condition
  (or the exception of the read), whether each \<^verbatim>\<open>page.waitForURL\<close> throws, and
  the cookies of the context, which depend on the cookies injected and on the number
  of waits that came back. Launching, \<^verbatim>\<open>context.cookies\<close> and
  \<^verbatim>\<open>browser.close\<close> are taken to succeed.
\<close>

record session =
  goto_throws :: "js_error option"
  title_at :: "nat \<Rightarrow> js_error + string"
  wait_throws :: "nat \<Rightarrow> js_error option"
  context_cookies :: "cookie list \<Rightarrow> nat \<Rightarrow> cookie list"

text \<open>
  How a call ends: it returns a value, an exception leaves it, or
  \<^verbatim>\<open>process.exit\<close> ends the process inside it.
\<close>

datatype 'a completion = Returned 'a | Thrown js_error | Exited nat

record preload =
  pre_outcome :: "cookie list completion"
  pre_closed :: bool
  pre_console :: "line list"
  pre_waits :: nat

definition sentinel :: string where
  "sentinel = ''Just a moment...''"

definition guidance :: "line list" where
  "guidance =
     [Log ''Cloudflare detecte :'', Log ''1. Completez le captcha manuellement'',
      Log ''2. Attendez le chargement de la page'',
      Log ''3. Le programme continuera automatiquement'']"

text \<open>
  The \<^verbatim>\<open>while\<close> loop of \<open>preloadCookies\<close>, from the value of \<^verbatim>\<open>attempts\<close> and the
  console so far: the final \<^verbatim>\<open>attempts\<close>, the console, and the exception that left
  the loop, if any. The title is read before \<^verbatim>\<open>attempts < 5\<close> is tested.
\<close>

function wait_loop :: "session \<Rightarrow> nat \<Rightarrow> line list \<Rightarrow> nat \<times> line list \<times> js_error option" where
  "wait_loop s attempts con =
     (case title_at s attempts of
        Inl e \<Rightarrow> (attempts, con, Some e)
      | Inr t \<Rightarrow>
          if t = sentinel \<and> attempts < 5 then
            (case wait_throws s attempts of
               Some e \<Rightarrow> (Suc attempts, if attempts = 0 then con @ guidance else con, Some e)
             | None \<Rightarrow>
                 wait_loop s (Suc attempts) (if attempts = 0 then con @ guidance else con))
          else (attempts, con, None))"
  by pat_completeness auto
termination
  by (relation "measure (\<lambda>(s, attempts, con). 5 - attempts)") auto

declare wait_loop.simps [simp del]

text \<open>
  \<open>preloadCookies\<close>. The \<^verbatim>\<open>catch\<close> block logs and calls \<^verbatim>\<open>process.exit(1)\<close>, which
  ends the process there: the \<^verbatim>\<open>finally\<close> block runs only when the \<^verbatim>\<open>try\<close> block
  ends without an exception.
\<close>

definition preloadCookies_catch :: "js_error \<Rightarrow> nat \<Rightarrow> line list \<Rightarrow> preload" where
  "preloadCookies_catch e attempts con =
     \<lparr>pre_outcome = Exited 1, pre_closed = False,
      pre_console = con @ [Err (''Echec de la validation des cookies : '' @ message e)],
      pre_waits = attempts\<rparr>"

definition preloadCookies_finally :: "session \<Rightarrow> cookie list \<Rightarrow> nat \<Rightarrow> line list \<Rightarrow> preload" where
  "preloadCookies_finally s existingCookies attempts con =
     \<lparr>pre_outcome = Returned (context_cookies s existingCookies attempts), pre_closed = True,
      pre_console = con, pre_waits = attempts\<rparr>"

definition preloadCookies :: "session \<Rightarrow> cookie list \<Rightarrow> preload" where
  "preloadCookies s existingCookies =
     (case goto_throws s of
        Some e \<Rightarrow> preloadCookies_catch e 0 [Log ''Validation des cookies...'']
      | None \<Rightarrow>
          (case wait_loop s 0 [Log ''Validation des cookies...''] of
             (attempts, con, Some e) \<Rightarrow> preloadCookies_catch e attempts con
           | (attempts, con, None) \<Rightarrow> preloadCookies_finally s existingCookies attempts con))"

text \<open>
  The variant of \<^verbatim>\<open>src/index.ts\<close>: the loop has no counter (the model counts its rounds
  in \<open>i\<close> to index the environment) and nothing catches an exception. The loop may
  run forever: \<open>None\<close> is a call that never returns.
\<close>

definition guidance_index :: "line list" where
  "guidance_index =
     [Log ''is in cloudflare!'',
      Log ''complete the captcha or close the program and manually import valid cookies in the cookies.json file.'']"

partial_function (option) wait_loop_index ::
  "session \<Rightarrow> nat \<Rightarrow> bool \<Rightarrow> line list \<Rightarrow> (nat \<times> line list \<times> js_error option) option" where
  "wait_loop_index s i initial con =
     (case title_at s i of
        Inl e \<Rightarrow> Some (i, con, Some e)
      | Inr t \<Rightarrow>
          if t = sentinel then
            (case wait_throws s i of
               Some e \<Rightarrow> Some (Suc i, if \<not> initial then con @ guidance_index else con, Some e)
             | None \<Rightarrow>
                 wait_loop_index s (Suc i) True
                   (if \<not> initial then con @ guidance_index else con))
          else Some (i, con, None))"

declare wait_loop_index.simps [code]

definition preloadCookies_index :: "session \<Rightarrow> cookie list \<Rightarrow> preload option" where
  "preloadCookies_index s existingCookies =
     (case goto_throws s of
        Some e \<Rightarrow>
          Some \<lparr>pre_outcome = Thrown e, pre_closed = False, pre_console = [], pre_waits = 0\<rparr>
      | None \<Rightarrow>
          (case wait_loop_index s 0 False [] of
             None \<Rightarrow> None
           | Some (i, con, Some e) \<Rightarrow>
               Some \<lparr>pre_outcome = Thrown e, pre_closed = False, pre_console = con,
                     pre_waits = i\<rparr>
           | Some (i, con, None) \<Rightarrow>
               Some \<lparr>pre_outcome = Returned (context_cookies s existingCookies i),
                     pre_closed = True, pre_console = con, pre_waits = i\<rparr>))"

section \<open>The progress bar\<close>

text \<open>
  The bar is the \<^verbatim>\<open>SingleBar\<close> of the library cli-progress, which is not part of the
  repository. Its state here is the total and the current value, and its calls act as
  the library documents them: \<^verbatim>\<open>start(total, startValue)\<close> sets both,
  \<^verbatim>\<open>increment()\<close> adds one to the value, \<^verbatim>\<open>update(n, payload)\<close> sets the value to
  \<open>n\<close>, \<^verbatim>\<open>update(payload)\<close> changes the payload only, \<^verbatim>\<open>stop()\<close> changes neither.
\<close>

record bar =
  bar_total :: nat
  bar_value :: nat

datatype bar_call = Start nat nat | Increment | UpdateValue nat | UpdatePayload | Stop

fun call_bar :: "bar_call \<Rightarrow> bar \<Rightarrow> bar" where
  "call_bar (Start totalValue startValue) b =
     \<lparr>bar_total = totalValue, bar_value = startValue\<rparr>"
| "call_bar Increment b = b\<lparr>bar_value := bar_value b + 1\<rparr>"
| "call_bar (UpdateValue n) b = b\<lparr>bar_value := n\<rparr>"
| "call_bar UpdatePayload b = b"
| "call_bar Stop b = b"

section \<open>The retrying download\<close>

text \<open>
  One pass through the \<^verbatim>\<open>try\<close> block of \<open>downloadWithRetry\<close> ends in one of five
  ways: the request is rejected, the response is not ok (with its status), reading the
  body is rejected, \<^verbatim>\<open>outputFileSync\<close> throws, or the body is written. The network
  and the disk are the environment \<open>net\<close>, which gives the way the pass ends for each
  number of failed passes before it.
\<close>

datatype attempt =
    RequestFails js_error
  | NotOk nat
  | BodyFails js_error
  | WriteFails js_error
  | Success string

fun succeeds :: "attempt \<Rightarrow> bool" where
  "succeeds (Success buffer) = True"
| "succeeds (RequestFails e) = False"
| "succeeds (NotOk status) = False"
| "succeeds (BodyFails e) = False"
| "succeeds (WriteFails e) = False"

fun attempt_error :: "attempt \<Rightarrow> js_error" where
  "attempt_error (RequestFails e) = e"
| "attempt_error (NotOk status) = Error ''HTTP status''"
| "attempt_error (BodyFails e) = e"
| "attempt_error (WriteFails e) = e"
| "attempt_error (Success buffer) = Error []"

text \<open>
  What a call has done when it returns: the failed passes, the milliseconds slept, the
  calls made on the bar, the lines logged, and the file written (path and content).
\<close>

record download =
  dl_attempts :: nat
  dl_slept :: nat
  dl_calls :: "bar_call list"
  dl_console :: "line list"
  dl_file :: "(string \<times> string) option"

definition download_start :: download where
  "download_start =
     \<lparr>dl_attempts = 0, dl_slept = 0, dl_calls = [], dl_console = [], dl_file = None\<rparr>"

definition file_path :: "string \<Rightarrow> string \<Rightarrow> string \<Rightarrow> string" where
  "file_path destinationFolder folder name =
     destinationFolder @ ''/'' @ folder @ ''/'' @ name @ ''.jpg''"

text \<open>
  The \<^verbatim>\<open>catch\<close> block: \<^verbatim>\<open>attempts\<close> is increased first; the payload of the bar is
  updated while the new value is at most \<^verbatim>\<open>maxLoggedAttempts + 1 = 4\<close>; then the call
  sleeps 10000 ms.
\<close>

definition downloadWithRetry_catch :: "download \<Rightarrow> download" where
  "downloadWithRetry_catch d =
     d\<lparr>dl_attempts := dl_attempts d + 1,
       dl_calls := dl_calls d @ (if dl_attempts d + 1 \<le> 4 then [UpdatePayload] else []),
       dl_slept := dl_slept d + 10000\<rparr>"

text \<open>
  The end of the \<^verbatim>\<open>try\<close> block: the body is written, and the value of the bar is set
  to 1 when a pass has failed before.
\<close>

definition downloadWithRetry_done :: "string \<Rightarrow> string \<Rightarrow> download \<Rightarrow> download" where
  "downloadWithRetry_done path buffer d =
     d\<lparr>dl_file := Some (path, buffer),
       dl_calls := dl_calls d @ (if dl_attempts d > 0 then [UpdateValue 1] else [])\<rparr>"

text \<open>The \<^verbatim>\<open>while (true)\<close> loop. \<open>None\<close> is a call that never returns.\<close>

partial_function (option) downloadWithRetry_loop ::
  "(nat \<Rightarrow> attempt) \<Rightarrow> string \<Rightarrow> download \<Rightarrow> download option" where
  "downloadWithRetry_loop net path d =
     (case net (dl_attempts d) of
        Success buffer \<Rightarrow> Some (downloadWithRetry_done path buffer d)
      | _ \<Rightarrow> downloadWithRetry_loop net path (downloadWithRetry_catch d))"

declare downloadWithRetry_loop.simps [code]

definition downloadWithRetry ::
  "(nat \<Rightarrow> attempt) \<Rightarrow> string \<Rightarrow> string \<Rightarrow> string \<Rightarrow> string \<Rightarrow> download option" where
  "downloadWithRetry net imageUrl folder name destinationFolder =
     downloadWithRetry_loop net (file_path destinationFolder folder name) download_start"

text \<open>
  The variant of \<^verbatim>\<open>src/index.ts\<close>: it has no counter (the model counts the failed
  passes in \<open>dl_attempts\<close> to index the environment), logs every failure on the console
  and increments the bar itself on success.
\<close>

definition downloadWithRetry_catch_index :: "string \<Rightarrow> js_error \<Rightarrow> download \<Rightarrow> download" where
  "downloadWithRetry_catch_index imageUrl e d =
     d\<lparr>dl_attempts := dl_attempts d + 1,
       dl_console := dl_console d @
         [Err (''Failed to download '' @ imageUrl @ '': '' @ message e @
               ''. Retrying in 10s...'')],
       dl_slept := dl_slept d + 10000\<rparr>"

definition downloadWithRetry_done_index :: "string \<Rightarrow> string \<Rightarrow> download \<Rightarrow> download" where
  "downloadWithRetry_done_index path body d =
     d\<lparr>dl_file := Some (path, body), dl_calls := dl_calls d @ [Increment]\<rparr>"

partial_function (option) downloadWithRetry_loop_index ::
  "(nat \<Rightarrow> attempt) \<Rightarrow> string \<Rightarrow> string \<Rightarrow> download \<Rightarrow> download option" where
  "downloadWithRetry_loop_index net imageUrl path d =
     (case net (dl_attempts d) of
        Success body \<Rightarrow> Some (downloadWithRetry_done_index path body d)
      | _ \<Rightarrow>
          downloadWithRetry_loop_index net imageUrl path
            (downloadWithRetry_catch_index imageUrl (attempt_error (net (dl_attempts d))) d))"

declare downloadWithRetry_loop_index.simps [code]

definition downloadWithRetry_index ::
  "(nat \<Rightarrow> attempt) \<Rightarrow> string \<Rightarrow> string \<Rightarrow> string \<Rightarrow> string \<Rightarrow> download option" where
  "downloadWithRetry_index net imageUrl folder name destinationFolder =
     downloadWithRetry_loop_index net imageUrl (file_path destinationFolder folder name)
       download_start"

section \<open>The response handler and the run\<close>

record response =
  resp_url :: string
  resp_ok :: bool
  resp_text :: string

text \<open>
  An entry of \<^verbatim>\<open>downloadQueue\<close>: the promise of \<open>downloadWithRetry\<close> chained with
  \<^verbatim>\<open>then(() => progressBar.increment())\<close>. It is \<open>Fetching\<close> while \<open>downloadWithRetry\<close>
  runs, \<open>Fetched\<close> once that has returned, \<open>Counted\<close> once the \<^verbatim>\<open>then\<close> callback has run.
\<close>

datatype phase = Fetching | Fetched | Counted

record task =
  imageUrl :: string
  folder :: string
  name :: string
  phase :: phase

text \<open>
  The variables the handler closes over, the console, the handlers suspended at
  \<^verbatim>\<open>await response.text()\<close>, and the files written by the downloads.
  \<^verbatim>\<open>response.text()\<close> is taken to deliver the body.
\<close>

record state =
  totalImages :: nat
  processedUrls :: "string list"
  downloadQueue :: "task list"
  progressBar :: bar
  console :: "line list"
  awaiting :: "response list"
  files :: "(string \<times> string) list"

definition init :: "bar \<Rightarrow> state" where
  "init b =
     \<lparr>totalImages = 0, processedUrls = [], downloadQueue = [], progressBar = b,
      console = [], awaiting = [], files = []\<rparr>"

text \<open>
  The first \<^verbatim>\<open>if\<close> of the handler after its \<^verbatim>\<open>await\<close>: the changed state, and the
  exception thrown, if any.
\<close>

definition on_response_manifest :: "response \<Rightarrow> state \<Rightarrow> state \<times> js_error option" where
  "on_response_manifest r st =
     (case manifest_match (resp_text r) of
        None \<Rightarrow> (st, Some (Error ''Format de reponse inattendu''))
      | Some images \<Rightarrow>
          (st\<lparr>totalImages := length (split_on CHR '','' images),
              console := console st @ [Log ''images detectees''],
              progressBar :=
                call_bar (Start (length (split_on CHR '','' images)) 0) (progressBar st)\<rparr>,
           None))"

text \<open>
  The second \<^verbatim>\<open>if\<close> of the handler. Destructuring the \<^verbatim>\<open>null\<close> of a failed match
  throws a \<^verbatim>\<open>TypeError\<close>, after the URL has been added to \<^verbatim>\<open>processedUrls\<close>.
\<close>

definition on_response_asset :: "response \<Rightarrow> state \<Rightarrow> state \<times> js_error option" where
  "on_response_asset r st =
     (if asset_filter (resp_url r) \<and> resp_url r \<notin> set (processedUrls st) then
        (case asset_extract (resp_url r) of
           None \<Rightarrow>
             (st\<lparr>processedUrls := processedUrls st @ [resp_url r]\<rparr>,
              Some (TypeError ''null is not iterable''))
         | Some (f, n) \<Rightarrow>
             (st\<lparr>processedUrls := processedUrls st @ [resp_url r],
                 downloadQueue := downloadQueue st @
                   [\<lparr>imageUrl = resp_url r, folder = f, name = n, phase = Fetching\<rparr>]\<rparr>,
              None))
      else (st, None))"

text \<open>The \<^verbatim>\<open>catch\<close> block of the handler.\<close>

fun on_response_catch :: "state \<times> js_error option \<Rightarrow> state" where
  "on_response_catch (st, None) = st"
| "on_response_catch (st, Some e) =
     st\<lparr>console := console st @ [Err (''Erreur de traitement : '' @ message e)]\<rparr>"

text \<open>
  The handler runs without interruption up to its only \<^verbatim>\<open>await\<close>, which it reaches
  when the response is the page itself, and again without interruption from there to
  its end. \<open>on_response\<close> is the first part, \<open>on_response_resume\<close> the second.
\<close>

definition on_response :: "string \<Rightarrow> response \<Rightarrow> state \<Rightarrow> state" where
  "on_response url r st =
     (if resp_url r = url \<and> resp_ok r then st\<lparr>awaiting := awaiting st @ [r]\<rparr>
      else on_response_catch (on_response_asset r st))"

definition on_response_resume :: "response \<Rightarrow> state \<Rightarrow> state" where
  "on_response_resume r st =
     on_response_catch
       (case on_response_manifest r st of
          (st', Some e) \<Rightarrow> (st', Some e)
        | (st', None) \<Rightarrow> on_response_asset r st')"

text \<open>
  What can happen next during the run: a response event is delivered; the body awaited
  by a suspended handler arrives; the \<open>downloadWithRetry\<close> of an entry of the queue,
  run against its environment, returns; the \<^verbatim>\<open>then\<close> callback of an entry runs. The
  payload updates of the scrolling loop and the final \<^verbatim>\<open>stop()\<close> change neither the
  total nor the value and are left out.
\<close>

datatype action =
    Response response
  | TextReady nat
  | Downloaded nat "nat \<Rightarrow> attempt"
  | ThenRuns nat

fun step :: "string \<Rightarrow> string \<Rightarrow> action \<Rightarrow> state \<Rightarrow> state" where
  "step url destinationFolder (Response r) st = on_response url r st"
| "step url destinationFolder (TextReady i) st =
     (if i < length (awaiting st) then
        on_response_resume (awaiting st ! i)
          (st\<lparr>awaiting := take i (awaiting st) @ drop (Suc i) (awaiting st)\<rparr>)
      else st)"
| "step url destinationFolder (Downloaded k net) st =
     (if k < length (downloadQueue st) \<and> phase (downloadQueue st ! k) = Fetching then
        (case downloadWithRetry net (imageUrl (downloadQueue st ! k))
                (folder (downloadQueue st ! k)) (name (downloadQueue st ! k))
                destinationFolder of
           None \<Rightarrow> st
         | Some d \<Rightarrow>
             st\<lparr>progressBar := fold call_bar (dl_calls d) (progressBar st),
                files := files st @ (case dl_file d of None \<Rightarrow> [] | Some f \<Rightarrow> [f]),
                downloadQueue :=
                  (downloadQueue st)[k := (downloadQueue st ! k)\<lparr>phase := Fetched\<rparr>]\<rparr>)
      else st)"
| "step url destinationFolder (ThenRuns k) st =
     (if k < length (downloadQueue st) \<and> phase (downloadQueue st ! k) = Fetched then
        st\<lparr>progressBar := call_bar Increment (progressBar st),
           downloadQueue :=
             (downloadQueue st)[k := (downloadQueue st ! k)\<lparr>phase := Counted\<rparr>]\<rparr>
      else st)"

definition run :: "string \<Rightarrow> string \<Rightarrow> action list \<Rightarrow> state \<Rightarrow> state" where
  "run url destinationFolder acts st = fold (step url destinationFolder) acts st"

text \<open>
  The variant of \<^verbatim>\<open>src/index.ts\<close>. Nothing catches an exception of the handler: its
  promise is rejected, and the model collects the rejections in \<open>unhandled\<close>.
  \<open>downloadWithRetry\<close> increments the bar itself, so an entry of
  \<^verbatim>\<open>downloadPromises\<close> goes from \<open>Fetching\<close> to \<open>Counted\<close> at once.
\<close>

record state_index =
  taille :: nat
  urlPassed :: "string list"
  downloadPromises :: "task list"
  bar1 :: bar
  awaiting_index :: "response list"
  files_index :: "(string \<times> string) list"
  unhandled :: "js_error list"

definition init_index :: "bar \<Rightarrow> state_index" where
  "init_index b =
     \<lparr>taille = 0, urlPassed = [], downloadPromises = [], bar1 = b, awaiting_index = [],
      files_index = [], unhandled = []\<rparr>"

text \<open>\<^verbatim>\<open>url.endsWith('/') ? url : url + '/'\<close>.\<close>

definition primary_url_index :: "string \<Rightarrow> string" where
  "primary_url_index url = (if url \<noteq> [] \<and> last url = CHR ''/'' then url else url @ ''/'')"

definition on_response_manifest_index ::
  "response \<Rightarrow> state_index \<Rightarrow> state_index \<times> js_error option" where
  "on_response_manifest_index r st =
     (case manifest_match (resp_text r) of
        None \<Rightarrow> (st, Some (TypeError ''null is not iterable''))
      | Some images \<Rightarrow>
          (st\<lparr>taille := length (split_on CHR '','' images),
              bar1 := call_bar (Start (length (split_on CHR '','' images)) 0) (bar1 st)\<rparr>,
           None))"

definition on_response_asset_index ::
  "response \<Rightarrow> state_index \<Rightarrow> state_index \<times> js_error option" where
  "on_response_asset_index r st =
     (if resp_ok r \<and> asset_filter (resp_url r) \<and> resp_url r \<notin> set (urlPassed st) then
        (case asset_extract (resp_url r) of
           None \<Rightarrow>
             (st\<lparr>urlPassed := urlPassed st @ [resp_url r]\<rparr>,
              Some (TypeError ''null is not iterable''))
         | Some (f, n) \<Rightarrow>
             (st\<lparr>urlPassed := urlPassed st @ [resp_url r],
                 downloadPromises := downloadPromises st @
                   [\<lparr>imageUrl = resp_url r, folder = f, name = n, phase = Fetching\<rparr>]\<rparr>,
              None))
      else (st, None))"

fun on_response_rejects :: "state_index \<times> js_error option \<Rightarrow> state_index" where
  "on_response_rejects (st, None) = st"
| "on_response_rejects (st, Some e) = st\<lparr>unhandled := unhandled st @ [e]\<rparr>"

definition on_response_index :: "string \<Rightarrow> response \<Rightarrow> state_index \<Rightarrow> state_index" where
  "on_response_index url r st =
     (if resp_ok r \<and> resp_url r = primary_url_index url then
        st\<lparr>awaiting_index := awaiting_index st @ [r]\<rparr>
      else on_response_rejects (on_response_asset_index r st))"

definition on_response_resume_index :: "response \<Rightarrow> state_index \<Rightarrow> state_index" where
  "on_response_resume_index r st =
     on_response_rejects
       (case on_response_manifest_index r st of
          (st', Some e) \<Rightarrow> (st', Some e)
        | (st', None) \<Rightarrow> on_response_asset_index r st')"

fun step_index :: "string \<Rightarrow> string \<Rightarrow> action \<Rightarrow> state_index \<Rightarrow> state_index" where
  "step_index url destinationFolder (Response r) st = on_response_index url r st"
| "step_index url destinationFolder (TextReady i) st =
     (if i < length (awaiting_index st) then
        on_response_resume_index (awaiting_index st ! i)
          (st\<lparr>awaiting_index :=
                take i (awaiting_index st) @ drop (Suc i) (awaiting_index st)\<rparr>)
      else st)"
| "step_index url destinationFolder (Downloaded k net) st =
     (if k < length (downloadPromises st) \<and> phase (downloadPromises st ! k) = Fetching then
        (case downloadWithRetry_index net (imageUrl (downloadPromises st ! k))
                (folder (downloadPromises st ! k)) (name (downloadPromises st ! k))
                destinationFolder of
           None \<Rightarrow> st
         | Some d \<Rightarrow>
             st\<lparr>bar1 := fold call_bar (dl_calls d) (bar1 st),
                files_index := files_index st @ (case dl_file d of None \<Rightarrow> [] | Some f \<Rightarrow> [f]),
                downloadPromises :=
                  (downloadPromises st)[k := (downloadPromises st ! k)\<lparr>phase := Counted\<rparr>]\<rparr>)
      else st)"
| "step_index url destinationFolder (ThenRuns k) st = st"

definition run_index :: "string \<Rightarrow> string \<Rightarrow> action list \<Rightarrow> state_index \<Rightarrow> state_index" where
  "run_index url destinationFolder acts st = fold (step_index url destinationFolder) acts st"

section \<open>Where a written path lands\<close>

text \<open>
  The segments of a path relative to a root directory, walked from the root as the file
  system resolves them: \<^verbatim>\<open>..\<close> goes up one directory, \<^verbatim>\<open>.\<close> and the empty segment
  stay, any other segment goes down. The result is the list of segments below the root,
  or \<open>None\<close> when the walk leaves the root.
\<close>

fun below :: "string list \<Rightarrow> string list \<Rightarrow> string list option" where
  "below stack [] = Some stack"
| "below stack (seg # segs) =
     (if seg = ''..'' then (if stack = [] then None else below (butlast stack) segs)
      else if seg = ''.'' \<or> seg = [] then below stack segs
      else below (stack @ [seg]) segs)"

definition resolve_below :: "string \<Rightarrow> string list option" where
  "resolve_below rel = below [] (split_on CHR ''/'' rel)"

section \<open>Predicates and example inputs of the proofs\<close>

text \<open>
  A call that started in \<open>d\<close> and returned in \<open>d'\<close> did so after \<open>k\<close> failed passes, each
  followed by a sleep of 10000 ms, on a pass that wrote the body.
\<close>

definition returned_on_success ::
  "(nat \<Rightarrow> attempt) \<Rightarrow> string \<Rightarrow> download \<Rightarrow> download \<Rightarrow> bool" where
  "returned_on_success net path d d' =
     (\<exists>k buffer. dl_attempts d' = dl_attempts d + k \<and> net (dl_attempts d') = Success buffer \<and>
        (\<forall>i<k. \<not> succeeds (net (dl_attempts d + i))) \<and>
        dl_slept d' = dl_slept d + 10000 * k \<and> dl_file d' = Some (path, buffer))"

text \<open>A download that answers 503 twice and then succeeds.\<close>

definition net_503_503_ok :: "nat \<Rightarrow> attempt" where
  "net_503_503_ok i = (if i < 2 then NotOk 503 else Success ''jpeg'')"

text \<open>
  A cookie file that exists and does not parse, and a cookie file that cannot be
  written; a parser that accepts the empty array only.
\<close>

definition parse_example :: "string \<Rightarrow> js_error + cookie list" where
  "parse_example data =
     (if data = ''[]'' then Inr [] else Inl (SyntaxError ''Unexpected end of JSON input''))"

definition stringify_example :: "cookie list \<Rightarrow> string" where
  "stringify_example cookies = ''[]''"

definition fs_unparseable :: cookie_fs where
  "fs_unparseable = \<lparr>cookie_file = Some ''{'', read_throws = None, write_throws = None\<rparr>"

definition fs_unwritable :: cookie_fs where
  "fs_unwritable =
     \<lparr>cookie_file = None, read_throws = None,
      write_throws = Some (Error ''EACCES: permission denied'')\<rparr>"

text \<open>
  A session whose challenge is never resolved (the title stays the sentinel and every
  wait comes back), and a session whose first navigation times out.
\<close>

definition session_stuck :: session where
  "session_stuck =
     \<lparr>goto_throws = None, title_at = (\<lambda>i. Inr sentinel), wait_throws = (\<lambda>i. None),
      context_cookies = (\<lambda>existingCookies i. existingCookies)\<rparr>"

text \<open>A session whose challenge is resolved at the seventh read of the title.\<close>

definition session_seventh :: session where
  "session_seventh =
     \<lparr>goto_throws = None,
      title_at = (\<lambda>i. if i < 7 then Inr sentinel else Inr ''Sushiscan''),
      wait_throws = (\<lambda>i. None),
      context_cookies = (\<lambda>existingCookies i. existingCookies)\<rparr>"

definition session_timeout :: session where
  "session_timeout =
     \<lparr>goto_throws = Some (TimeoutError ''page.goto: Timeout 30000ms exceeded.''),
      title_at = (\<lambda>i. Inr ''Sushiscan''), wait_throws = (\<lambda>i. None),
      context_cookies = (\<lambda>existingCookies i. existingCookies)\<rparr>"

text \<open>
  A page, bodies of the page with a manifest of three, two, one and no images, asset
  URLs of the usual shape, an asset URL whose file name has a second hyphen, an asset
  URL whose folder is \<^verbatim>\<open>..\<close>, and a download that succeeds at once.
\<close>

definition url_page :: string where
  "url_page = ''https://sushiscan.net/one-piece-volume-1/''"

definition body_3 :: string where
  "body_3 = ''ts_reader.run({'' @ images_key @ '' [1,2,3]});''"

definition body_2 :: string where
  "body_2 = ''ts_reader.run({'' @ images_key @ '' [1,2]});''"

definition body_1 :: string where
  "body_1 = ''ts_reader.run({'' @ images_key @ '' [1]});''"

definition body_0 :: string where
  "body_0 = ''ts_reader.run({'' @ images_key @ '' []});''"

definition url_a1 :: string where
  "url_a1 = ''https://sushiscan.net/wp-content/uploads/OnePiece-001.jpg''"

definition url_a2 :: string where
  "url_a2 = ''https://sushiscan.net/wp-content/uploads/OnePiece-002.jpg''"

definition url_a3 :: string where
  "url_a3 = ''https://sushiscan.net/wp-content/uploads/OnePiece-003.jpg''"

definition url_hyphen :: string where
  "url_hyphen = ''https://sushiscan.net/wp-content/uploads/One-Piece-001.jpg''"

definition url_dotdot :: string where
  "url_dotdot = ''https://sushiscan.net/wp-content/uploads/..-12.jpg''"

definition page_response :: "string \<Rightarrow> response" where
  "page_response body = \<lparr>resp_url = url_page, resp_ok = True, resp_text = body\<rparr>"

definition asset_response :: "string \<Rightarrow> response" where
  "asset_response u = \<lparr>resp_url = u, resp_ok = True, resp_text = ''jpeg''\<rparr>"

definition net_ok :: "nat \<Rightarrow> attempt" where
  "net_ok i = Success ''jpeg''"

definition bar_new :: bar where
  "bar_new = \<lparr>bar_total = 100, bar_value = 0\<rparr>"

text \<open>Calls on the bar that leave its total alone; the body arrivals among the actions.\<close>

fun keeps_total :: "bar_call \<Rightarrow> bool" where
  "keeps_total (Start totalValue startValue) = False"
| "keeps_total Increment = True"
| "keeps_total (UpdateValue n) = True"
| "keeps_total UpdatePayload = True"
| "keeps_total Stop = True"

fun is_TextReady :: "action \<Rightarrow> bool" where
  "is_TextReady (TextReady i) = True"
| "is_TextReady (Response r) = False"
| "is_TextReady (Downloaded k net) = False"
| "is_TextReady (ThenRuns k) = False"

text \<open>
  The invariant of the queue against the set of URLs seen: the URLs of the queue are
  distinct and have been seen, a URL seen that the extraction pattern matches is in the
  queue, and the folder and name of an entry are the captures of its URL.
\<close>

definition descr :: "task \<Rightarrow> string \<times> string \<times> string" where
  "descr t = (imageUrl t, folder t, name t)"

definition queue_inv :: "string list \<Rightarrow> task list \<Rightarrow> bool" where
  "queue_inv seen q =
     (distinct (map imageUrl q) \<and> set (map imageUrl q) \<subseteq> set seen \<and>
      (\<forall>u\<in>set seen. asset_extract u \<noteq> None \<longrightarrow> u \<in> set (map imageUrl q)) \<and>
      (\<forall>x\<in>set (map descr q). asset_extract (fst x) = Some (snd x)))"

definition files_inv :: "string \<Rightarrow> (string \<times> string) list \<Rightarrow> task list \<Rightarrow> bool" where
  "files_inv dest fs q =
     (\<forall>x\<in>set fs. \<exists>y\<in>set (map descr q). fst x = file_path dest (fst (snd y)) (snd (snd y)))"

text \<open>
  Example runs: the manifest of three images and one finished download; the same run
  followed by a second response of the page with a manifest of two images; a manifest
  of one image and two finished downloads; a manifest of three images, two finished
  downloads and a third asset discovered.
\<close>

definition acts_first_download :: "action list" where
  "acts_first_download =
     [Response (page_response body_3), TextReady 0, Response (asset_response url_a1),
      Downloaded 0 net_ok, ThenRuns 0]"

definition acts_second_manifest :: "action list" where
  "acts_second_manifest =
     acts_first_download @ [Response (page_response body_2), TextReady 0]"

definition acts_two_of_one :: "action list" where
  "acts_two_of_one =
     [Response (page_response body_1), TextReady 0, Response (asset_response url_a1),
      Response (asset_response url_a2), Downloaded 0 net_ok, ThenRuns 0,
      Downloaded 1 net_ok, ThenRuns 1]"

definition acts_two_done :: "action list" where
  "acts_two_done =
     [Response (page_response body_3), TextReady 0, Response (asset_response url_a1),
      Response (asset_response url_a2), Response (asset_response url_a3),
      Downloaded 0 net_ok, ThenRuns 0, Downloaded 1 net_ok, ThenRuns 1]"

chapter \<open>Proofs\<close>

section \<open>The retrying download returns only on success\<close>

lemma succeeds_iff: "succeeds a \<longleftrightarrow> (\<exists>buffer. a = Success buffer)"
  by (cases a) simp_all

lemma downloadWithRetry_catch_fields:
  "dl_attempts (downloadWithRetry_catch d) = Suc (dl_attempts d)"
  "dl_slept (downloadWithRetry_catch d) = dl_slept d + 10000"
  "dl_file (downloadWithRetry_catch d) = dl_file d"
  by (simp_all add: downloadWithRetry_catch_def)

lemma downloadWithRetry_done_fields:
  "dl_attempts (downloadWithRetry_done path buffer d) = dl_attempts d"
  "dl_slept (downloadWithRetry_done path buffer d) = dl_slept d"
  "dl_file (downloadWithRetry_done path buffer d) = Some (path, buffer)"
  by (simp_all add: downloadWithRetry_done_def)

lemma downloadWithRetry_catch_index_fields:
  "dl_attempts (downloadWithRetry_catch_index u e d) = Suc (dl_attempts d)"
  "dl_slept (downloadWithRetry_catch_index u e d) = dl_slept d + 10000"
  "dl_file (downloadWithRetry_catch_index u e d) = dl_file d"
  by (simp_all add: downloadWithRetry_catch_index_def)

lemma downloadWithRetry_done_index_fields:
  "dl_attempts (downloadWithRetry_done_index path buffer d) = dl_attempts d"
  "dl_slept (downloadWithRetry_done_index path buffer d) = dl_slept d"
  "dl_file (downloadWithRetry_done_index path buffer d) = Some (path, buffer)"
  by (simp_all add: downloadWithRetry_done_index_def)

lemma loop_success:
  "net (dl_attempts d) = Success buffer \<Longrightarrow>
   downloadWithRetry_loop net path d = Some (downloadWithRetry_done path buffer d)"
  by (subst downloadWithRetry_loop.simps) simp

lemma loop_failure:
  "\<not> succeeds (net (dl_attempts d)) \<Longrightarrow>
   downloadWithRetry_loop net path d =
     downloadWithRetry_loop net path (downloadWithRetry_catch d)"
  by (subst downloadWithRetry_loop.simps) (cases "net (dl_attempts d)"; simp)

lemma loop_index_success:
  "net (dl_attempts d) = Success buffer \<Longrightarrow>
   downloadWithRetry_loop_index net u path d = Some (downloadWithRetry_done_index path buffer d)"
  by (subst downloadWithRetry_loop_index.simps) simp

lemma loop_index_failure:
  "\<not> succeeds (net (dl_attempts d)) \<Longrightarrow>
   downloadWithRetry_loop_index net u path d =
     downloadWithRetry_loop_index net u path
       (downloadWithRetry_catch_index u (attempt_error (net (dl_attempts d))) d)"
  by (subst downloadWithRetry_loop_index.simps) (cases "net (dl_attempts d)"; simp)

lemma returned_now:
  assumes "net (dl_attempts d) = Success buffer"
    and "dl_attempts d' = dl_attempts d" and "dl_slept d' = dl_slept d"
    and "dl_file d' = Some (path, buffer)"
  shows "returned_on_success net path d d'"
  unfolding returned_on_success_def using assms
  by (intro exI[of _ 0] exI[of _ buffer]) simp

lemma returned_later:
  assumes f0: "\<not> succeeds (net (dl_attempts d))"
    and a: "dl_attempts d1 = Suc (dl_attempts d)" and s: "dl_slept d1 = dl_slept d + 10000"
    and r: "returned_on_success net path d1 d'"
  shows "returned_on_success net path d d'"
proof -
  from r obtain k buffer where
    k: "dl_attempts d' = dl_attempts d1 + k" "net (dl_attempts d') = Success buffer"
      "\<forall>i<k. \<not> succeeds (net (dl_attempts d1 + i))"
      "dl_slept d' = dl_slept d1 + 10000 * k" "dl_file d' = Some (path, buffer)"
    unfolding returned_on_success_def by blast
  have "\<not> succeeds (net (dl_attempts d + i))" if "i < Suc k" for i
  proof (cases i)
    case 0
    then show ?thesis using f0 by simp
  next
    case (Suc j)
    then have "j < k" using that by simp
    with k(3) Suc a show ?thesis by simp
  qed
  then have "\<forall>i<Suc k. \<not> succeeds (net (dl_attempts d + i))" by blast
  with k a s show ?thesis
    unfolding returned_on_success_def
    by (intro exI[of _ "Suc k"] exI[of _ buffer]) simp
qed

lemma loop_only_success:
  assumes "downloadWithRetry_loop net path d = Some d'"
  shows "returned_on_success net path d d'"
proof (rule downloadWithRetry_loop.raw_induct[where P = returned_on_success, OF _ assms],
    goal_cases)
  case (1 loop net path d d')
  show ?case
  proof (cases "succeeds (net (dl_attempts d))")
    case True
    then obtain buffer where b: "net (dl_attempts d) = Success buffer"
      by (auto simp: succeeds_iff)
    with 1(2) have "d' = downloadWithRetry_done path buffer d" by simp
    with b show ?thesis
      by (intro returned_now[of net d buffer]) (simp_all add: downloadWithRetry_done_fields)
  next
    case False
    with 1(2) have "loop net path (downloadWithRetry_catch d) = Some d'"
      by (cases "net (dl_attempts d)") simp_all
    from returned_later[OF False _ _ 1(1)[OF this]] show ?thesis
      by (simp add: downloadWithRetry_catch_fields)
  qed
qed

lemma loop_index_only_success:
  assumes "downloadWithRetry_loop_index net u path d = Some d'"
  shows "returned_on_success net path d d'"
proof (rule downloadWithRetry_loop_index.raw_induct
    [where P = "\<lambda>net u path d d'. returned_on_success net path d d'", OF _ assms], goal_cases)
  case (1 loop net u path d d')
  show ?case
  proof (cases "succeeds (net (dl_attempts d))")
    case True
    then obtain buffer where b: "net (dl_attempts d) = Success buffer"
      by (auto simp: succeeds_iff)
    with 1(2) have "d' = downloadWithRetry_done_index path buffer d" by simp
    with b show ?thesis
      by (intro returned_now[of net d buffer]) (simp_all add: downloadWithRetry_done_index_fields)
  next
    case False
    with 1(2) have "loop net u path
        (downloadWithRetry_catch_index u (attempt_error (net (dl_attempts d))) d) = Some d'"
      by (cases "net (dl_attempts d)") simp_all
    from returned_later[OF False _ _ 1(1)[OF this]] show ?thesis
      by (simp add: downloadWithRetry_catch_index_fields)
  qed
qed

lemma loop_returns:
  "succeeds (net (dl_attempts d + k)) \<Longrightarrow>
   (\<And>i. i < k \<Longrightarrow> \<not> succeeds (net (dl_attempts d + i))) \<Longrightarrow>
   downloadWithRetry_loop net path d \<noteq> None"
proof (induction k arbitrary: d)
  case 0
  then show ?case by (auto simp: succeeds_iff loop_success)
next
  case (Suc k)
  have f0: "\<not> succeeds (net (dl_attempts d))" using Suc.prems(2)[of 0] by simp
  have s: "succeeds (net (dl_attempts (downloadWithRetry_catch d) + k))"
    using Suc.prems(1) by (simp add: downloadWithRetry_catch_fields)
  have f: "\<not> succeeds (net (dl_attempts (downloadWithRetry_catch d) + i))" if "i < k" for i
    using Suc.prems(2)[of "Suc i"] that by (simp add: downloadWithRetry_catch_fields)
  from Suc.IH[OF s f] show ?case by (simp add: loop_failure f0)
qed

lemma loop_index_returns:
  "succeeds (net (dl_attempts d + k)) \<Longrightarrow>
   (\<And>i. i < k \<Longrightarrow> \<not> succeeds (net (dl_attempts d + i))) \<Longrightarrow>
   downloadWithRetry_loop_index net u path d \<noteq> None"
proof (induction k arbitrary: d)
  case 0
  then show ?case by (auto simp: succeeds_iff loop_index_success)
next
  case (Suc k)
  let ?d = "downloadWithRetry_catch_index u (attempt_error (net (dl_attempts d))) d"
  have f0: "\<not> succeeds (net (dl_attempts d))" using Suc.prems(2)[of 0] by simp
  have s: "succeeds (net (dl_attempts ?d + k))"
    using Suc.prems(1) by (simp add: downloadWithRetry_catch_index_fields)
  have f: "\<not> succeeds (net (dl_attempts ?d + i))" if "i < k" for i
    using Suc.prems(2)[of "Suc i"] that by (simp add: downloadWithRetry_catch_index_fields)
  from Suc.IH[OF s f] show ?case by (simp add: loop_index_failure f0)
qed

lemma first_success:
  assumes "succeeds ((net :: nat \<Rightarrow> attempt) k)"
  shows "\<exists>m. succeeds (net m) \<and> (\<forall>i<m. \<not> succeeds (net i))"
proof -
  define m where "m = (LEAST j. succeeds (net j))"
  have "succeeds (net m)" unfolding m_def using assms by (rule LeastI)
  moreover have "\<not> succeeds (net i)" if "i < m" for i
    using that unfolding m_def by (rule not_less_Least)
  ultimately show ?thesis by blast
qed

lemma returned_from_start:
  assumes "returned_on_success net path download_start d"
  shows "\<exists>buffer. net (dl_attempts d) = Success buffer \<and>
           (\<forall>i<dl_attempts d. \<not> succeeds (net i)) \<and> dl_slept d = 10000 * dl_attempts d \<and>
           dl_file d = Some (path, buffer)"
  using assms unfolding returned_on_success_def download_start_def by auto

text \<open>
  C2. For every environment and every URL: when \<open>downloadWithRetry\<close> returns, the pass it
  returned on succeeded and its body was written to the file of the asset, every
  earlier pass failed, and the call slept 10000 ms after each failed pass; when no pass
  ever succeeds the call never returns; when some pass succeeds it does return. The
  same holds for the variant of \<^verbatim>\<open>src/index.ts\<close>. The function has no other way to
  end: no failure leaves it.
\<close>

theorem downloadWithRetry_returns_only_on_success:
  "(downloadWithRetry net u f n dest = Some d \<longrightarrow>
      (\<exists>buffer. net (dl_attempts d) = Success buffer \<and>
         (\<forall>i<dl_attempts d. \<not> succeeds (net i)) \<and> dl_slept d = 10000 * dl_attempts d \<and>
         dl_file d = Some (file_path dest f n, buffer))) \<and>
   ((\<forall>i. \<not> succeeds (net i)) \<longrightarrow> downloadWithRetry net u f n dest = None) \<and>
   (succeeds (net k) \<longrightarrow> downloadWithRetry net u f n dest \<noteq> None) \<and>
   (downloadWithRetry_index net u f n dest = Some d \<longrightarrow>
      (\<exists>buffer. net (dl_attempts d) = Success buffer \<and>
         (\<forall>i<dl_attempts d. \<not> succeeds (net i)) \<and> dl_slept d = 10000 * dl_attempts d \<and>
         dl_file d = Some (file_path dest f n, buffer))) \<and>
   ((\<forall>i. \<not> succeeds (net i)) \<longrightarrow> downloadWithRetry_index net u f n dest = None) \<and>
   (succeeds (net k) \<longrightarrow> downloadWithRetry_index net u f n dest \<noteq> None)"
proof (intro conjI impI)
  assume "downloadWithRetry net u f n dest = Some d"
  then show "\<exists>buffer. net (dl_attempts d) = Success buffer \<and>
         (\<forall>i<dl_attempts d. \<not> succeeds (net i)) \<and> dl_slept d = 10000 * dl_attempts d \<and>
         dl_file d = Some (file_path dest f n, buffer)"
    unfolding downloadWithRetry_def by (intro returned_from_start loop_only_success)
next
  assume "downloadWithRetry_index net u f n dest = Some d"
  then show "\<exists>buffer. net (dl_attempts d) = Success buffer \<and>
         (\<forall>i<dl_attempts d. \<not> succeeds (net i)) \<and> dl_slept d = 10000 * dl_attempts d \<and>
         dl_file d = Some (file_path dest f n, buffer)"
    unfolding downloadWithRetry_index_def by (intro returned_from_start loop_index_only_success)
next
  assume never: "\<forall>i. \<not> succeeds (net i)"
  show "downloadWithRetry net u f n dest = None"
  proof (cases "downloadWithRetry net u f n dest")
    case (Some d')
    then have "returned_on_success net (file_path dest f n) download_start d'"
      unfolding downloadWithRetry_def by (rule loop_only_success)
    with never show ?thesis
      unfolding returned_on_success_def by (metis succeeds.simps(1))
  qed simp
  show "downloadWithRetry_index net u f n dest = None"
  proof (cases "downloadWithRetry_index net u f n dest")
    case (Some d')
    then have "returned_on_success net (file_path dest f n) download_start d'"
      unfolding downloadWithRetry_index_def by (rule loop_index_only_success)
    with never show ?thesis
      unfolding returned_on_success_def by (metis succeeds.simps(1))
  qed simp
next
  assume "succeeds (net k)"
  then obtain m where m: "succeeds (net m)" "\<forall>i<m. \<not> succeeds (net i)"
    using first_success by blast
  have z: "dl_attempts download_start = 0" by (simp add: download_start_def)
  show "downloadWithRetry net u f n dest \<noteq> None"
    unfolding downloadWithRetry_def using m by (intro loop_returns[of net _ m]) (simp_all add: z)
  show "downloadWithRetry_index net u f n dest \<noteq> None"
    unfolding downloadWithRetry_index_def using m
    by (intro loop_index_returns[of net _ m]) (simp_all add: z)
qed

theorem downloadWithRetry_returns_only_on_success_witness:
  "\<exists>d. downloadWithRetry net_503_503_ok ''https://sushiscan.net/wp-content/uploads/a-1.jpg''
          ''a'' ''1'' ''./dl'' = Some d \<and>
       dl_attempts d = 2 \<and> dl_slept d = 20000 \<and> dl_file d = Some (''./dl/a/1.jpg'', ''jpeg'')"
proof -
  let ?u = "''https://sushiscan.net/wp-content/uploads/a-1.jpg''"
  have ok: "succeeds (net_503_503_ok 2)" by (simp add: net_503_503_ok_def)
  note t = downloadWithRetry_returns_only_on_success[of net_503_503_ok ?u "''a''" "''1''" "''./dl''" _ 2]
  from t ok obtain d where
    d: "downloadWithRetry net_503_503_ok ?u ''a'' ''1'' ''./dl'' = Some d" by blast
  from downloadWithRetry_returns_only_on_success[of net_503_503_ok ?u "''a''" "''1''" "''./dl''" d 2] d
  obtain buffer where
    b: "net_503_503_ok (dl_attempts d) = Success buffer"
      "\<forall>i<dl_attempts d. \<not> succeeds (net_503_503_ok i)"
      "dl_slept d = 10000 * dl_attempts d"
      "dl_file d = Some (file_path ''./dl'' ''a'' ''1'', buffer)" by blast
  from b(1) have ge: "2 \<le> dl_attempts d" and buf: "buffer = ''jpeg''"
    by (auto simp: net_503_503_ok_def split: if_splits)
  from b(2) ok have "\<not> 2 < dl_attempts d" by blast
  with ge have "dl_attempts d = 2" by simp
  with b(3,4) buf d show ?thesis by (simp add: file_path_def)
qed

section \<open>Failures of the cookie file\<close>

text \<open>
  C9. When the cookie file exists and reading or parsing it throws, \<open>loadSavedCookies\<close>
  logs the error and returns the empty list, while the variant of \<^verbatim>\<open>src/index.ts\<close>
  lets the exception leave the function; when writing the file throws, \<open>saveCookies\<close>
  logs the error and returns with the file unchanged, while the variant of
  \<^verbatim>\<open>src/index.ts\<close> lets the exception leave the function.
\<close>

theorem cookie_file_failures:
  "(existsSync fs \<and> loadSavedCookies_try parse fs = Inl e \<longrightarrow>
      loadSavedCookies parse fs = ([], [Err (''Erreur de lecture des cookies : '' @ message e)]) \<and>
      loadSavedCookies_index parse fs = Inl e) \<and>
   (writeFileSync fs (stringify cookies) = Inl e \<longrightarrow>
      saveCookies stringify fs cookies =
        (fs, [Err (''Erreur de sauvegarde des cookies : '' @ message e)]) \<and>
      saveCookies_index stringify fs cookies = Inl e)"
  by (auto simp: loadSavedCookies_def loadSavedCookies_index_def loadSavedCookies_try_def
      saveCookies_def saveCookies_index_def split: sum.splits)

theorem cookie_file_failures_witness:
  "loadSavedCookies parse_example fs_unparseable =
     ([], [Err ''Erreur de lecture des cookies : Unexpected end of JSON input'']) \<and>
   loadSavedCookies_index parse_example fs_unparseable =
     Inl (SyntaxError ''Unexpected end of JSON input'') \<and>
   saveCookies stringify_example fs_unwritable [] =
     (fs_unwritable, [Err ''Erreur de sauvegarde des cookies : EACCES: permission denied'']) \<and>
   saveCookies_index stringify_example fs_unwritable [] =
     Inl (Error ''EACCES: permission denied'')"
proof -
  have x: "existsSync fs_unparseable"
    by (simp add: existsSync_def fs_unparseable_def)
  have r: "loadSavedCookies_try parse_example fs_unparseable =
      Inl (SyntaxError ''Unexpected end of JSON input'')"
    by (simp add: loadSavedCookies_try_def readFileSync_def fs_unparseable_def parse_example_def)
  have w: "writeFileSync fs_unwritable (stringify_example []) =
      Inl (Error ''EACCES: permission denied'')"
    by (simp add: writeFileSync_def fs_unwritable_def)
  from cookie_file_failures[of fs_unparseable parse_example
      "SyntaxError ''Unexpected end of JSON input''"] x r
    cookie_file_failures[of fs_unwritable _ "Error ''EACCES: permission denied''"
      stringify_example "[]"] w
  show ?thesis by simp
qed

section \<open>The wait loop of the session bootstrap\<close>

lemma wait_loop_bound: "fst (wait_loop s a con) \<le> max a 5"
proof (induction s a con rule: wait_loop.induct)
  case (1 s attempts con)
  show ?case
  proof (cases "title_at s attempts")
    case (Inl e)
    then show ?thesis by (subst wait_loop.simps) simp
  next
    case (Inr t)
    show ?thesis
    proof (cases "t = sentinel \<and> attempts < 5")
      case False
      with Inr show ?thesis by (subst wait_loop.simps) auto
    next
      case True
      show ?thesis
      proof (cases "wait_throws s attempts")
        case (Some e)
        with Inr True show ?thesis by (subst wait_loop.simps) simp
      next
        case None
        from "1.IH"[OF Inr True None] Inr True None show ?thesis
          by (subst wait_loop.simps) simp
      qed
    qed
  qed
qed

lemma wait_loop_exhausted:
  assumes t: "\<forall>i\<le>5. title_at s i = Inr sentinel" and w: "\<forall>i<5. wait_throws s i = None"
  shows "0 < a \<Longrightarrow> a \<le> 5 \<Longrightarrow> wait_loop s a con = (5, con, None)"
proof (induction "5 - a" arbitrary: a)
  case 0
  then have "a = 5" by simp
  with t show ?case by (subst wait_loop.simps) simp
next
  case (Suc n)
  then have lt: "a < 5" by simp
  with t have ti: "title_at s a = Inr sentinel" by simp
  from w lt have wi: "wait_throws s a = None" by simp
  have "wait_loop s (Suc a) con = (5, con, None)"
    using Suc by (intro Suc.hyps(1)) simp_all
  with ti wi lt Suc.prems(1) show ?case by (subst wait_loop.simps) simp
qed

lemma wait_loop_exhausted_from_start:
  assumes t: "\<forall>i\<le>5. title_at s i = Inr sentinel" and w: "\<forall>i<5. wait_throws s i = None"
  shows "wait_loop s 0 con = (5, con @ guidance, None)"
proof -
  from t have t0: "title_at s 0 = Inr sentinel" by simp
  from w have w0: "wait_throws s 0 = None" by simp
  have "wait_loop s (Suc 0) (con @ guidance) = (5, con @ guidance, None)"
    by (rule wait_loop_exhausted[OF t w]) simp_all
  with t0 w0 show ?thesis by (subst wait_loop.simps) simp
qed

lemma wait_loop_index_Some:
  assumes "wait_loop_index s i initial con = Some r"
  shows "\<exists>j. title_at s j \<noteq> Inr sentinel \<or> wait_throws s j \<noteq> None"
proof (rule wait_loop_index.raw_induct
    [where P = "\<lambda>s i initial con r. \<exists>j. title_at s j \<noteq> Inr sentinel \<or> wait_throws s j \<noteq> None",
      OF _ assms], goal_cases)
  case (1 loop s i initial con r)
  show ?case
  proof (cases "title_at s i = Inr sentinel \<and> wait_throws s i = None")
    case True
    with 1(2) have "loop s (Suc i) True (if \<not> initial then con @ guidance_index else con) = Some r"
      by simp
    then show ?thesis by (rule 1(1))
  next
    case False
    then show ?thesis by blast
  qed
qed

lemma wait_loop_index_forever:
  assumes "\<forall>i. title_at s i = Inr sentinel \<and> wait_throws s i = None"
  shows "wait_loop_index s i initial con = None"
proof (cases "wait_loop_index s i initial con")
  case (Some r)
  from wait_loop_index_Some[OF this] assms show ?thesis by auto
qed simp

lemma preloadCookies_index_unbounded:
  assumes "goto_throws s = None"
    and "\<forall>i. title_at s i = Inr sentinel \<and> wait_throws s i = None"
  shows "preloadCookies_index s existingCookies = None"
  using assms by (simp add: preloadCookies_index_def wait_loop_index_forever)

lemma wait_loop_error:
  "wait_loop s a con = (a', con', Some e) \<Longrightarrow>
   (\<exists>i. title_at s i = Inl e) \<or> (\<exists>i. wait_throws s i = Some e)"
proof (induction s a con rule: wait_loop.induct)
  case (1 s attempts con)
  show ?case
  proof (cases "title_at s attempts")
    case (Inl x)
    then have "wait_loop s attempts con = (attempts, con, Some x)"
      by (subst wait_loop.simps) simp
    with "1.prems" have "x = e" by simp
    with Inl show ?thesis by blast
  next
    case (Inr t)
    show ?thesis
    proof (cases "t = sentinel \<and> attempts < 5")
      case False
      with Inr have "wait_loop s attempts con = (attempts, con, None)"
        by (subst wait_loop.simps) auto
      with "1.prems" show ?thesis by simp
    next
      case True
      show ?thesis
      proof (cases "wait_throws s attempts")
        case (Some x)
        with Inr True have "wait_loop s attempts con =
            (Suc attempts, if attempts = 0 then con @ guidance else con, Some x)"
          by (subst wait_loop.simps) simp
        with "1.prems" have "x = e" by simp
        with Some show ?thesis by blast
      next
        case None
        with Inr True have "wait_loop s attempts con =
            wait_loop s (Suc attempts) (if attempts = 0 then con @ guidance else con)"
          by (subst wait_loop.simps) simp
        with "1.prems" have "wait_loop s (Suc attempts)
            (if attempts = 0 then con @ guidance else con) = (a', con', Some e)" by simp
        from "1.IH"[OF Inr True None this] show ?thesis .
      qed
    qed
  qed
qed

lemma wait_loop_index_rounds:
  assumes "t \<noteq> sentinel"
  shows "(\<And>j. j < k \<Longrightarrow> title_at s (i + j) = Inr sentinel \<and> wait_throws s (i + j) = None) \<Longrightarrow>
    title_at s (i + k) = Inr t \<Longrightarrow>
    \<exists>con'. wait_loop_index s i initial con = Some (i + k, con', None)"
proof (induction k arbitrary: i initial con)
  case 0
  with assms show ?case by (subst wait_loop_index.simps) simp
next
  case (Suc k)
  from Suc.prems(1)[of 0] have t0: "title_at s i = Inr sentinel" and w0: "wait_throws s i = None"
    by simp_all
  have r: "title_at s (Suc i + j) = Inr sentinel \<and> wait_throws s (Suc i + j) = None"
    if "j < k" for j
    using Suc.prems(1)[of "Suc j"] that by simp
  have e: "title_at s (Suc i + k) = Inr t" using Suc.prems(2) by simp
  from Suc.IH[OF r e, of True "if \<not> initial then con @ guidance_index else con"]
  obtain con' where "wait_loop_index s (Suc i) True
      (if \<not> initial then con @ guidance_index else con) = Some (Suc i + k, con', None)"
    by blast
  with t0 w0 show ?case by (subst wait_loop_index.simps) simp
qed

text \<open>
  C5, as amended. In the variant with the counter, the wait loop of \<open>preloadCookies\<close>
  makes at most 5 rounds in every execution. When the title is still the sentinel
  after the fifth wait, the loop ends and the call closes the browser and returns the
  cookies of the context as it does after a resolved challenge, with no failure logged
  and without leaving the process; the process is left only when \<^verbatim>\<open>page.goto\<close>, a
  read of the title or \<^verbatim>\<open>page.waitForURL\<close> throws. In the variant of
  \<^verbatim>\<open>src/index.ts\<close> the loop has no bound: when the challenge is resolved at the
  \<open>n\<close>-th read of the title the loop makes \<open>n\<close> rounds, whatever \<open>n\<close> is, and while
  the title stays the sentinel and the waits come back the call never returns.
\<close>

theorem preloadCookies_loop_bound:
  "pre_waits (preloadCookies s existingCookies) \<le> 5 \<and>
   (goto_throws s = None \<and> (\<forall>i\<le>5. title_at s i = Inr sentinel) \<and>
    (\<forall>i<5. wait_throws s i = None) \<longrightarrow>
      preloadCookies s existingCookies =
        \<lparr>pre_outcome = Returned (context_cookies s existingCookies 5), pre_closed = True,
         pre_console = Log ''Validation des cookies...'' # guidance, pre_waits = 5\<rparr>) \<and>
   (pre_outcome (preloadCookies s existingCookies) = Exited 1 \<longrightarrow>
      (\<exists>e. goto_throws s = Some e \<or> (\<exists>i. title_at s i = Inl e) \<or>
           (\<exists>i. wait_throws s i = Some e))) \<and>
   (goto_throws s = None \<and> (\<forall>i. title_at s i = Inr sentinel \<and> wait_throws s i = None) \<longrightarrow>
      preloadCookies_index s existingCookies = None) \<and>
   (goto_throws s = None \<and> (\<forall>i<n. title_at s i = Inr sentinel \<and> wait_throws s i = None) \<and>
    title_at s n = Inr t \<and> t \<noteq> sentinel \<longrightarrow>
      (\<exists>r. preloadCookies_index s existingCookies = Some r \<and> pre_waits r = n \<and>
           pre_closed r \<and> pre_outcome r = Returned (context_cookies s existingCookies n)))"
proof -
  have bound: "pre_waits (preloadCookies s existingCookies) \<le> 5"
  proof (cases "goto_throws s")
    case (Some e)
    then show ?thesis by (simp add: preloadCookies_def preloadCookies_catch_def)
  next
    case None
    obtain a con r where l: "wait_loop s 0 [Log ''Validation des cookies...''] = (a, con, r)"
      by (cases "wait_loop s 0 [Log ''Validation des cookies...'']") auto
    from wait_loop_bound[of s 0 "[Log ''Validation des cookies...'']"] l have "a \<le> 5" by simp
    with None l show ?thesis
      by (cases r) (simp_all add: preloadCookies_def preloadCookies_catch_def
          preloadCookies_finally_def)
  qed
  have silent: "preloadCookies s existingCookies =
        \<lparr>pre_outcome = Returned (context_cookies s existingCookies 5), pre_closed = True,
         pre_console = Log ''Validation des cookies...'' # guidance, pre_waits = 5\<rparr>"
    if h: "goto_throws s = None \<and> (\<forall>i\<le>5. title_at s i = Inr sentinel) \<and>
      (\<forall>i<5. wait_throws s i = None)"
  proof -
    from h have g: "goto_throws s = None"
      and l: "wait_loop s 0 [Log ''Validation des cookies...''] =
        (5, [Log ''Validation des cookies...''] @ guidance, None)"
      by (simp, intro wait_loop_exhausted_from_start) blast+
    show ?thesis by (simp add: preloadCookies_def preloadCookies_finally_def g l)
  qed
  have thrown: "\<exists>e. goto_throws s = Some e \<or> (\<exists>i. title_at s i = Inl e) \<or>
      (\<exists>i. wait_throws s i = Some e)"
    if x: "pre_outcome (preloadCookies s existingCookies) = Exited 1"
  proof (cases "goto_throws s")
    case (Some e)
    then show ?thesis by blast
  next
    case None
    obtain a con r where l: "wait_loop s 0 [Log ''Validation des cookies...''] = (a, con, r)"
      by (cases "wait_loop s 0 [Log ''Validation des cookies...'']") auto
    show ?thesis
    proof (cases r)
      case None
      with \<open>goto_throws s = None\<close> l x show ?thesis
        by (simp add: preloadCookies_def preloadCookies_finally_def)
    next
      case (Some e)
      with l have "wait_loop s 0 [Log ''Validation des cookies...''] = (a, con, Some e)"
        by simp
      from wait_loop_error[OF this] show ?thesis by blast
    qed
  qed
  have forever: "preloadCookies_index s existingCookies = None"
    if "goto_throws s = None \<and> (\<forall>i. title_at s i = Inr sentinel \<and> wait_throws s i = None)"
    using that by (intro preloadCookies_index_unbounded) simp_all
  have rounds: "\<exists>r. preloadCookies_index s existingCookies = Some r \<and> pre_waits r = n \<and>
      pre_closed r \<and> pre_outcome r = Returned (context_cookies s existingCookies n)"
    if h: "goto_throws s = None \<and> (\<forall>i<n. title_at s i = Inr sentinel \<and> wait_throws s i = None) \<and>
      title_at s n = Inr t \<and> t \<noteq> sentinel"
  proof -
    from h have g: "goto_throws s = None" and tn: "title_at s (0 + n) = Inr t"
      and ne: "t \<noteq> sentinel"
      and b: "\<And>j. j < n \<Longrightarrow> title_at s (0 + j) = Inr sentinel \<and> wait_throws s (0 + j) = None"
      by simp_all
    from wait_loop_index_rounds[OF ne b tn, of False "[]"]
    obtain con' where "wait_loop_index s 0 False [] = Some (n, con', None)" by auto
    with g show ?thesis by (simp add: preloadCookies_index_def)
  qed
  from bound silent thrown forever rounds show ?thesis by blast
qed

theorem preloadCookies_loop_bound_witness:
  "preloadCookies session_stuck [] =
     \<lparr>pre_outcome = Returned [], pre_closed = True,
      pre_console = Log ''Validation des cookies...'' # guidance, pre_waits = 5\<rparr> \<and>
   preloadCookies_index session_stuck [] = None \<and>
   pre_waits (preloadCookies session_seventh []) \<le> 5 \<and>
   (\<exists>r. preloadCookies_index session_seventh [] = Some r \<and> pre_waits r = 7 \<and>
        pre_closed r \<and> pre_outcome r = Returned [])"
proof -
  have s7: "goto_throws session_seventh = None"
    "\<forall>i<7. title_at session_seventh i = Inr sentinel \<and> wait_throws session_seventh i = None"
    "title_at session_seventh 7 = Inr ''Sushiscan''" "''Sushiscan'' \<noteq> sentinel"
    "context_cookies session_seventh [] 7 = []"
    by (simp_all add: session_seventh_def sentinel_def)
  from preloadCookies_loop_bound[of session_stuck "[]"]
  have a: "preloadCookies session_stuck [] =
     \<lparr>pre_outcome = Returned [], pre_closed = True,
      pre_console = Log ''Validation des cookies...'' # guidance, pre_waits = 5\<rparr> \<and>
   preloadCookies_index session_stuck [] = None"
    by (simp add: session_stuck_def)
  from preloadCookies_loop_bound[of session_seventh "[]" 7 "''Sushiscan''"] s7
  have b: "pre_waits (preloadCookies session_seventh []) \<le> 5 \<and>
   (\<exists>r. preloadCookies_index session_seventh [] = Some r \<and> pre_waits r = 7 \<and>
        pre_closed r \<and> pre_outcome r = Returned [])"
    by simp
  from a b show ?thesis by simp
qed

text \<open>
  C5, as stated, fails. In the variant with the counter, with the title still the
  sentinel after five waits the bound is exhausted, and the call returns cookies with
  the browser closed, with no error line and without leaving the process. In the
  variant of \<^verbatim>\<open>src/index.ts\<close> the same session never returns, and a challenge
  resolved at the seventh read of the title takes seven rounds.
\<close>

theorem preloadCookies_exhaustion_counterexample:
  "pre_waits (preloadCookies session_stuck []) = 5 \<and>
   title_at session_stuck 5 = Inr sentinel \<and>
   pre_outcome (preloadCookies session_stuck []) = Returned [] \<and>
   \<not> list_ex is_Err (pre_console (preloadCookies session_stuck [])) \<and>
   preloadCookies_index session_stuck [] = None \<and>
   (\<exists>r. preloadCookies_index session_seventh [] = Some r \<and> pre_waits r = 7)"
proof -
  have t: "\<forall>i\<le>5. title_at session_stuck i = Inr sentinel"
    and w: "\<forall>i<5. wait_throws session_stuck i = None"
    and a: "\<forall>i. title_at session_stuck i = Inr sentinel \<and> wait_throws session_stuck i = None"
    by (simp_all add: session_stuck_def)
  have g: "goto_throws session_stuck = None"
    and c: "context_cookies session_stuck [] 5 = []"
    by (simp_all add: session_stuck_def)
  have p: "preloadCookies session_stuck [] =
     \<lparr>pre_outcome = Returned [], pre_closed = True,
      pre_console = Log ''Validation des cookies...'' # guidance, pre_waits = 5\<rparr>"
    by (simp add: preloadCookies_def preloadCookies_finally_def g c
        wait_loop_exhausted_from_start[OF t w])
  have t5: "title_at session_stuck 5 = Inr sentinel"
    by (simp add: session_stuck_def)
  have i: "preloadCookies_index session_stuck [] = None"
    by (rule preloadCookies_index_unbounded[OF g a])
  have g7: "goto_throws session_seventh = None"
    and t7: "title_at session_seventh (0 + 7) = Inr ''Sushiscan''"
    and n7: "''Sushiscan'' \<noteq> sentinel"
    and b7: "\<And>j. j < 7 \<Longrightarrow> title_at session_seventh (0 + j) = Inr sentinel \<and>
      wait_throws session_seventh (0 + j) = None"
    by (simp_all add: session_seventh_def sentinel_def)
  from wait_loop_index_rounds[OF n7 b7 t7, of False "[]"]
  obtain con' where "wait_loop_index session_seventh 0 False [] = Some (7, con', None)"
    by auto
  with g7 have r: "\<exists>r. preloadCookies_index session_seventh [] = Some r \<and> pre_waits r = 7"
    by (simp add: preloadCookies_index_def)
  show ?thesis
    by (simp add: p t5 i r guidance_def)
qed

text \<open>
  C6. A call of \<open>preloadCookies\<close> ends in one of two ways: it returns the cookies of
  the context with the browser closed, or the process exits with status 1 inside the
  \<^verbatim>\<open>catch\<close> block with the browser not closed and no cookies returned. When
  \<^verbatim>\<open>page.goto\<close> throws it ends the second way, after logging the failure. In the
  variant of \<^verbatim>\<open>src/index.ts\<close> the exception leaves the function with the browser open.
\<close>

theorem preloadCookies_navigation_failure:
  "(goto_throws s = Some e \<longrightarrow>
      preloadCookies s existingCookies =
        \<lparr>pre_outcome = Exited 1, pre_closed = False,
         pre_console =
           [Log ''Validation des cookies...'',
            Err (''Echec de la validation des cookies : '' @ message e)],
         pre_waits = 0\<rparr> \<and>
      preloadCookies_index s existingCookies =
        Some \<lparr>pre_outcome = Thrown e, pre_closed = False, pre_console = [], pre_waits = 0\<rparr>) \<and>
   (pre_outcome (preloadCookies s existingCookies) =
      Returned (context_cookies s existingCookies (pre_waits (preloadCookies s existingCookies))) \<and>
    pre_closed (preloadCookies s existingCookies) \<or>
    pre_outcome (preloadCookies s existingCookies) = Exited 1 \<and>
    \<not> pre_closed (preloadCookies s existingCookies))"
proof (rule conjI)
  show "goto_throws s = Some e \<longrightarrow>
      preloadCookies s existingCookies =
        \<lparr>pre_outcome = Exited 1, pre_closed = False,
         pre_console =
           [Log ''Validation des cookies...'',
            Err (''Echec de la validation des cookies : '' @ message e)],
         pre_waits = 0\<rparr> \<and>
      preloadCookies_index s existingCookies =
        Some \<lparr>pre_outcome = Thrown e, pre_closed = False, pre_console = [], pre_waits = 0\<rparr>"
    by (simp add: preloadCookies_def preloadCookies_catch_def preloadCookies_index_def)
  show "pre_outcome (preloadCookies s existingCookies) =
      Returned (context_cookies s existingCookies (pre_waits (preloadCookies s existingCookies))) \<and>
    pre_closed (preloadCookies s existingCookies) \<or>
    pre_outcome (preloadCookies s existingCookies) = Exited 1 \<and>
    \<not> pre_closed (preloadCookies s existingCookies)"
  proof (cases "goto_throws s")
    case (Some e')
    then show ?thesis by (simp add: preloadCookies_def preloadCookies_catch_def)
  next
    case None
    obtain a con r where l: "wait_loop s 0 [Log ''Validation des cookies...''] = (a, con, r)"
      by (cases "wait_loop s 0 [Log ''Validation des cookies...'']") auto
    with None show ?thesis
      by (cases r) (simp_all add: preloadCookies_def preloadCookies_catch_def
          preloadCookies_finally_def)
  qed
qed

theorem preloadCookies_navigation_failure_witness:
  "preloadCookies session_timeout [] =
     \<lparr>pre_outcome = Exited 1, pre_closed = False,
      pre_console =
        [Log ''Validation des cookies...'',
         Err ''Echec de la validation des cookies : page.goto: Timeout 30000ms exceeded.''],
      pre_waits = 0\<rparr> \<and>
   preloadCookies_index session_timeout [] =
     Some \<lparr>pre_outcome = Thrown (TimeoutError ''page.goto: Timeout 30000ms exceeded.''),
           pre_closed = False, pre_console = [], pre_waits = 0\<rparr>"
  using preloadCookies_navigation_failure
    [of session_timeout "TimeoutError ''page.goto: Timeout 30000ms exceeded.''" "[]"]
  by (simp add: session_timeout_def)

section \<open>What the extraction pattern captures\<close>

lemma lit_sound: "r \<in> set (lit p s) \<Longrightarrow> s = p @ r"
  by (auto simp: lit_def split: if_splits) (metis append_take_drop_id)

lemma many0_sound: "(x, r) \<in> set (many0 P s) \<Longrightarrow> s = x @ r \<and> list_all P x"
  by (induction s arbitrary: x r) (auto split: if_splits)

lemma many1_sound: "(x, r) \<in> set (many1 P s) \<Longrightarrow> x \<noteq> [] \<and> s = x @ r \<and> list_all P x"
  using many0_sound[of x r P s] by (auto simp: many1_def)

lemma search_sound: "search m s = Some x \<Longrightarrow> \<exists>pre t. s = pre @ t \<and> x \<in> set (m t)"
proof (induction s)
  case Nil
  then show ?case by (auto split: list.splits)
next
  case (Cons c r)
  show ?case
  proof (cases "m (c # r)")
    case Nil
    with Cons.prems have "search m r = Some x" by simp
    from Cons.IH[OF this] obtain pre t where "r = pre @ t" "x \<in> set (m t)" by blast
    then have "c # r = (c # pre) @ t \<and> x \<in> set (m t)" by simp
    then show ?thesis by blast
  next
    case (Cons y ys)
    with Cons.prems have "x \<in> set (m (c # r))" by simp
    then have "c # r = [] @ (c # r) \<and> x \<in> set (m (c # r))" by simp
    then show ?thesis by blast
  qed
qed

lemma asset_extract_at_sound:
  assumes "(f, n) \<in> set (asset_extract_at s)"
  shows "\<exists>w. s = ''/'' @ f @ ''-'' @ n @ ''.'' @ w \<and> f \<noteq> [] \<and> list_all is_folder_char f \<and>
           n \<noteq> [] \<and> list_all is_digit n \<and> w \<noteq> [] \<and> list_all is_word w"
proof -
  from assms obtain r0 r1 r2 r3 r4 w where
    a: "r0 \<in> set (lit ''/'' s)" "(f, r1) \<in> set (many1 is_folder_char r0)"
      "r2 \<in> set (lit ''-'' r1)" "(n, r3) \<in> set (many1 is_digit r2)"
      "r4 \<in> set (lit ''.'' r3)" "(w, []) \<in> set (many1 is_word r4)"
    unfolding asset_extract_at_def by (auto split: if_splits)
  from lit_sound[OF a(1)] many1_sound[OF a(2)] lit_sound[OF a(3)] many1_sound[OF a(4)]
    lit_sound[OF a(5)] many1_sound[OF a(6)]
  show ?thesis by (intro exI[of _ w]) simp
qed

lemma asset_extract_sound:
  assumes "asset_extract u = Some (f, n)"
  shows "\<exists>pre w. u = pre @ ''/'' @ f @ ''-'' @ n @ ''.'' @ w \<and> f \<noteq> [] \<and>
           list_all is_folder_char f \<and> n \<noteq> [] \<and> list_all is_digit n \<and> w \<noteq> [] \<and>
           list_all is_word w"
proof -
  from search_sound[OF assms[unfolded asset_extract_def]]
  obtain pre t where "u = pre @ t" "(f, n) \<in> set (asset_extract_at t)" by blast
  from asset_extract_at_sound[OF this(2)] obtain w where
    "t = ''/'' @ f @ ''-'' @ n @ ''.'' @ w \<and> f \<noteq> [] \<and> list_all is_folder_char f \<and>
       n \<noteq> [] \<and> list_all is_digit n \<and> w \<noteq> [] \<and> list_all is_word w" by blast
  with \<open>u = pre @ t\<close> show ?thesis by (intro exI[of _ pre] exI[of _ w]) simp
qed

lemma folder_chars: "list_all is_folder_char f \<Longrightarrow> CHR ''/'' \<notin> set f \<and> CHR ''-'' \<notin> set f"
  by (auto simp: list_all_iff is_folder_char_def)

lemma digit_chars: "list_all is_digit n \<Longrightarrow> CHR ''/'' \<notin> set n"
  by (auto simp: list_all_iff is_digit_def)

section \<open>Where the written path lands\<close>

lemma split_on_none: "sep \<notin> set s \<Longrightarrow> split_on sep s = [s]"
  by (induction s) auto

lemma split_on_first: "sep \<notin> set a \<Longrightarrow> split_on sep (a @ sep # b) = a # split_on sep b"
  by (induction a) auto

lemma length_split_on: "length (split_on sep s) = Suc (count_list s sep)"
  by (induction s) (auto split: list.splits)

lemma two_levels:
  assumes f: "f \<noteq> []" "CHR ''/'' \<notin> set f" "f \<noteq> ''.''" "f \<noteq> ''..''"
    and n: "CHR ''/'' \<notin> set n"
  shows "resolve_below (f @ ''/'' @ n @ ''.jpg'') = Some [f, n @ ''.jpg'']"
proof -
  have "CHR ''/'' \<notin> set (n @ ''.jpg'')" using n by simp
  then have "split_on CHR ''/'' (n @ ''.jpg'') = [n @ ''.jpg'']" by (rule split_on_none)
  with split_on_first[of "CHR ''/''" f "n @ ''.jpg''"] f(2)
  have s: "split_on CHR ''/'' (f @ CHR ''/'' # n @ ''.jpg'') = [f, n @ ''.jpg'']" by simp
  have "length (n @ ''.jpg'') \<noteq> length ''..''" "length (n @ ''.jpg'') \<noteq> length ''.''"
    "length (n @ ''.jpg'') \<noteq> length ([] :: string)" by simp_all
  then have "n @ ''.jpg'' \<noteq> ''..''" "n @ ''.jpg'' \<noteq> ''.''" "n @ ''.jpg'' \<noteq> []"
    by fastforce+
  with f show ?thesis by (simp add: resolve_below_def s)
qed

section \<open>The example URLs and bodies under the three patterns\<close>

lemma examples_filter:
  "asset_filter url_a1" "asset_filter url_a2" "asset_filter url_a3"
  "asset_filter url_hyphen" "asset_filter url_dotdot" "\<not> asset_filter url_page"
  by code_simp+

lemma examples_extract:
  "asset_extract url_a1 = Some (''OnePiece'', ''001'')"
  "asset_extract url_a2 = Some (''OnePiece'', ''002'')"
  "asset_extract url_a3 = Some (''OnePiece'', ''003'')"
  "asset_extract url_hyphen = None"
  "asset_extract url_dotdot = Some (''..'', ''12'')"
  by code_simp+

lemma examples_manifest:
  "manifest_match body_3 = Some ''1,2,3''"
  "manifest_match body_2 = Some ''1,2''"
  "manifest_match body_1 = Some ''1''"
  "manifest_match body_0 = Some []"
  by code_simp+

lemma examples_distinct:
  "url_a1 \<noteq> url_page" "url_a2 \<noteq> url_page" "url_a3 \<noteq> url_page"
  "url_hyphen \<noteq> url_page" "url_dotdot \<noteq> url_page"
  "url_a1 \<noteq> url_a2" "url_a1 \<noteq> url_a3" "url_a2 \<noteq> url_a3"
  "url_a2 \<noteq> url_a1" "url_a3 \<noteq> url_a1" "url_a3 \<noteq> url_a2"
  by (simp_all add: url_a1_def url_a2_def url_a3_def url_page_def url_hyphen_def url_dotdot_def)

lemma net_ok_download:
  "downloadWithRetry net_ok u f n dest =
     Some (download_start\<lparr>dl_file := Some (file_path dest f n, ''jpeg'')\<rparr>)"
  unfolding downloadWithRetry_def
  by (subst loop_success[where buffer = "''jpeg''"])
    (simp_all add: net_ok_def download_start_def downloadWithRetry_done_def)

section \<open>The queue against the URLs seen\<close>

lemma map_imageUrl_phase:
  "k < length q \<Longrightarrow> map imageUrl (q[k := (q ! k)\<lparr>phase := p\<rparr>]) = map imageUrl q"
  by (simp add: map_update list_update_same_conv)

lemma map_descr_phase:
  "k < length q \<Longrightarrow> map descr (q[k := (q ! k)\<lparr>phase := p\<rparr>]) = map descr q"
  by (simp add: map_update list_update_same_conv descr_def)

lemma queue_inv_phase:
  "queue_inv seen q \<Longrightarrow> k < length q \<Longrightarrow> queue_inv seen (q[k := (q ! k)\<lparr>phase := p\<rparr>])"
  unfolding queue_inv_def by (simp add: map_imageUrl_phase map_descr_phase)

lemma queue_inv_seen:
  assumes "queue_inv seen q" and "u \<notin> set seen" and "asset_extract u = None"
  shows "queue_inv (seen @ [u]) q"
  using assms unfolding queue_inv_def by auto

lemma queue_inv_enqueue:
  assumes "queue_inv seen q" and "u \<notin> set seen" and "asset_extract u = Some (f, n)"
  shows "queue_inv (seen @ [u]) (q @ [\<lparr>imageUrl = u, folder = f, name = n, phase = Fetching\<rparr>])"
  using assms unfolding queue_inv_def by (auto simp: descr_def)

lemma queue_inv_asset:
  assumes "queue_inv (processedUrls st) (downloadQueue st)"
  shows "queue_inv (processedUrls (fst (on_response_asset r st)))
           (downloadQueue (fst (on_response_asset r st)))"
proof (cases "asset_filter (resp_url r) \<and> resp_url r \<notin> set (processedUrls st)")
  case False
  with assms show ?thesis by (auto simp: on_response_asset_def)
next
  case True
  show ?thesis
  proof (cases "asset_extract (resp_url r)")
    case None
    with True queue_inv_seen[OF assms _ None] show ?thesis
      by (simp add: on_response_asset_def)
  next
    case (Some c)
    obtain f n where c: "c = (f, n)" by (cases c)
    with True Some queue_inv_enqueue[OF assms, of "resp_url r" f n] show ?thesis
      by (simp add: on_response_asset_def)
  qed
qed

lemma queue_inv_asset_index:
  assumes "queue_inv (urlPassed st) (downloadPromises st)"
  shows "queue_inv (urlPassed (fst (on_response_asset_index r st)))
           (downloadPromises (fst (on_response_asset_index r st)))"
proof (cases "resp_ok r \<and> asset_filter (resp_url r) \<and> resp_url r \<notin> set (urlPassed st)")
  case False
  with assms show ?thesis by (auto simp: on_response_asset_index_def)
next
  case True
  show ?thesis
  proof (cases "asset_extract (resp_url r)")
    case None
    with True queue_inv_seen[OF assms _ None] show ?thesis
      by (simp add: on_response_asset_index_def)
  next
    case (Some c)
    obtain f n where c: "c = (f, n)" by (cases c)
    with True Some queue_inv_enqueue[OF assms, of "resp_url r" f n] show ?thesis
      by (simp add: on_response_asset_index_def)
  qed
qed

lemma catch_queue:
  "processedUrls (on_response_catch x) = processedUrls (fst x)"
  "downloadQueue (on_response_catch x) = downloadQueue (fst x)"
  "files (on_response_catch x) = files (fst x)"
  "totalImages (on_response_catch x) = totalImages (fst x)"
  "progressBar (on_response_catch x) = progressBar (fst x)"
  by (cases x; cases "snd x"; simp)+

lemma rejects_queue:
  "urlPassed (on_response_rejects x) = urlPassed (fst x)"
  "downloadPromises (on_response_rejects x) = downloadPromises (fst x)"
  "files_index (on_response_rejects x) = files_index (fst x)"
  "taille (on_response_rejects x) = taille (fst x)"
  "bar1 (on_response_rejects x) = bar1 (fst x)"
  by (cases x; cases "snd x"; simp)+

lemma manifest_queue:
  "processedUrls (fst (on_response_manifest r st)) = processedUrls st"
  "downloadQueue (fst (on_response_manifest r st)) = downloadQueue st"
  "files (fst (on_response_manifest r st)) = files st"
  by (simp_all add: on_response_manifest_def split: option.splits)

lemma manifest_queue_index:
  "urlPassed (fst (on_response_manifest_index r st)) = urlPassed st"
  "downloadPromises (fst (on_response_manifest_index r st)) = downloadPromises st"
  "files_index (fst (on_response_manifest_index r st)) = files_index st"
  by (simp_all add: on_response_manifest_index_def split: option.splits)

lemma asset_files:
  "files (fst (on_response_asset r st)) = files st"
  "totalImages (fst (on_response_asset r st)) = totalImages st"
  "progressBar (fst (on_response_asset r st)) = progressBar st"
  by (simp_all add: on_response_asset_def split: option.splits)

lemma asset_files_index:
  "files_index (fst (on_response_asset_index r st)) = files_index st"
  "taille (fst (on_response_asset_index r st)) = taille st"
  "bar1 (fst (on_response_asset_index r st)) = bar1 st"
  by (simp_all add: on_response_asset_index_def split: option.splits)

lemma queue_inv_on_response:
  assumes "queue_inv (processedUrls st) (downloadQueue st)"
  shows "queue_inv (processedUrls (on_response url r st)) (downloadQueue (on_response url r st))"
  using assms queue_inv_asset[OF assms, of r]
  by (simp add: on_response_def catch_queue)

lemma queue_inv_on_response_resume:
  assumes "queue_inv (processedUrls st) (downloadQueue st)"
  shows "queue_inv (processedUrls (on_response_resume r st))
           (downloadQueue (on_response_resume r st))"
proof (cases "on_response_manifest r st")
  case (Pair st' e)
  then have q: "queue_inv (processedUrls st') (downloadQueue st')"
    using assms manifest_queue[of r st] by simp
  show ?thesis
  proof (cases e)
    case None
    with Pair queue_inv_asset[OF q, of r] show ?thesis
      by (simp add: on_response_resume_def catch_queue)
  next
    case (Some err)
    with Pair q show ?thesis by (simp add: on_response_resume_def)
  qed
qed

lemma queue_inv_on_response_index:
  assumes "queue_inv (urlPassed st) (downloadPromises st)"
  shows "queue_inv (urlPassed (on_response_index url r st))
           (downloadPromises (on_response_index url r st))"
  using assms queue_inv_asset_index[OF assms, of r]
  by (simp add: on_response_index_def rejects_queue)

lemma queue_inv_on_response_resume_index:
  assumes "queue_inv (urlPassed st) (downloadPromises st)"
  shows "queue_inv (urlPassed (on_response_resume_index r st))
           (downloadPromises (on_response_resume_index r st))"
proof (cases "on_response_manifest_index r st")
  case (Pair st' e)
  then have q: "queue_inv (urlPassed st') (downloadPromises st')"
    using assms manifest_queue_index[of r st] by simp
  show ?thesis
  proof (cases e)
    case None
    with Pair queue_inv_asset_index[OF q, of r] show ?thesis
      by (simp add: on_response_resume_index_def rejects_queue)
  next
    case (Some err)
    with Pair q show ?thesis by (simp add: on_response_resume_index_def)
  qed
qed

lemma queue_inv_step:
  assumes "queue_inv (processedUrls st) (downloadQueue st)"
  shows "queue_inv (processedUrls (step url dest a st)) (downloadQueue (step url dest a st))"
proof (cases a)
  case (Response r)
  with queue_inv_on_response[OF assms] show ?thesis by simp
next
  case (TextReady i)
  have "queue_inv (processedUrls (st\<lparr>awaiting := w\<rparr>)) (downloadQueue (st\<lparr>awaiting := w\<rparr>))" for w
    using assms by simp
  from queue_inv_on_response_resume[OF this] TextReady assms show ?thesis by simp
next
  case (Downloaded k net)
  with assms queue_inv_phase[OF assms] show ?thesis by (simp split: option.splits)
next
  case (ThenRuns k)
  with assms queue_inv_phase[OF assms] show ?thesis by simp
qed

lemma queue_inv_step_index:
  assumes "queue_inv (urlPassed st) (downloadPromises st)"
  shows "queue_inv (urlPassed (step_index url dest a st))
           (downloadPromises (step_index url dest a st))"
proof (cases a)
  case (Response r)
  with queue_inv_on_response_index[OF assms] show ?thesis by simp
next
  case (TextReady i)
  have "queue_inv (urlPassed (st\<lparr>awaiting_index := w\<rparr>))
          (downloadPromises (st\<lparr>awaiting_index := w\<rparr>))" for w
    using assms by simp
  from queue_inv_on_response_resume_index[OF this] TextReady assms show ?thesis by simp
next
  case (Downloaded k net)
  with assms queue_inv_phase[OF assms] show ?thesis by (simp split: option.splits)
next
  case (ThenRuns k)
  with assms show ?thesis by simp
qed

lemma queue_inv_run:
  "queue_inv (processedUrls st) (downloadQueue st) \<Longrightarrow>
   queue_inv (processedUrls (run url dest acts st)) (downloadQueue (run url dest acts st))"
  unfolding run_def by (induction acts arbitrary: st) (simp_all add: queue_inv_step)

lemma queue_inv_run_index:
  "queue_inv (urlPassed st) (downloadPromises st) \<Longrightarrow>
   queue_inv (urlPassed (run_index url dest acts st))
     (downloadPromises (run_index url dest acts st))"
  unfolding run_index_def by (induction acts arbitrary: st) (simp_all add: queue_inv_step_index)

lemma queue_inv_init: "queue_inv (processedUrls (init b)) (downloadQueue (init b))"
  by (simp add: queue_inv_def init_def)

lemma queue_inv_init_index: "queue_inv (urlPassed (init_index b)) (downloadPromises (init_index b))"
  by (simp add: queue_inv_def init_index_def)

lemma image_imageUrl_phase:
  "k < length q \<Longrightarrow> imageUrl ` set (q[k := (q ! k)\<lparr>phase := p\<rparr>]) = imageUrl ` set q"
  using map_imageUrl_phase[of k q p] by (metis set_map)

lemma urls_grow_asset:
  "set (map imageUrl (downloadQueue st)) \<subseteq>
   set (map imageUrl (downloadQueue (fst (on_response_asset r st))))"
  by (auto simp: on_response_asset_def split: option.splits)

lemma urls_grow_asset_index:
  "set (map imageUrl (downloadPromises st)) \<subseteq>
   set (map imageUrl (downloadPromises (fst (on_response_asset_index r st))))"
  by (auto simp: on_response_asset_index_def split: option.splits)

lemma urls_grow_step:
  "set (map imageUrl (downloadQueue st)) \<subseteq>
   set (map imageUrl (downloadQueue (step url dest a st)))"
proof (cases a)
  case (Response r)
  with urls_grow_asset[of st r] show ?thesis by (simp add: on_response_def catch_queue)
next
  case (TextReady i)
  have "set (map imageUrl (downloadQueue st')) \<subseteq>
      set (map imageUrl (downloadQueue (on_response_resume r st')))" for r st'
    using urls_grow_asset[of "fst (on_response_manifest r st')" r] manifest_queue[of r st']
    by (cases "on_response_manifest r st'"; cases "snd (on_response_manifest r st')")
      (simp_all add: on_response_resume_def catch_queue)
  from this[of "st\<lparr>awaiting := take i (awaiting st) @ drop (Suc i) (awaiting st)\<rparr>"
      "awaiting st ! i"] TextReady
  show ?thesis by simp
next
  case (Downloaded k net)
  then show ?thesis by (simp add: image_imageUrl_phase split: option.splits)
next
  case (ThenRuns k)
  then show ?thesis by (simp add: image_imageUrl_phase)
qed

lemma urls_grow_step_index:
  "set (map imageUrl (downloadPromises st)) \<subseteq>
   set (map imageUrl (downloadPromises (step_index url dest a st)))"
proof (cases a)
  case (Response r)
  with urls_grow_asset_index[of st r] show ?thesis
    by (simp add: on_response_index_def rejects_queue)
next
  case (TextReady i)
  have "set (map imageUrl (downloadPromises st')) \<subseteq>
      set (map imageUrl (downloadPromises (on_response_resume_index r st')))" for r st'
    using urls_grow_asset_index[of "fst (on_response_manifest_index r st')" r]
      manifest_queue_index[of r st']
    by (cases "on_response_manifest_index r st'"; cases "snd (on_response_manifest_index r st')")
      (simp_all add: on_response_resume_index_def rejects_queue)
  from this[of "st\<lparr>awaiting_index :=
      take i (awaiting_index st) @ drop (Suc i) (awaiting_index st)\<rparr>" "awaiting_index st ! i"]
    TextReady
  show ?thesis by simp
next
  case (Downloaded k net)
  then show ?thesis by (simp add: image_imageUrl_phase split: option.splits)
next
  case (ThenRuns k)
  then show ?thesis by simp
qed

lemma urls_grow_run:
  "set (map imageUrl (downloadQueue st)) \<subseteq>
   set (map imageUrl (downloadQueue (run url dest acts st)))"
  unfolding run_def
proof (induction acts arbitrary: st)
  case (Cons a acts)
  from urls_grow_step[of st url dest a] Cons[of "step url dest a st"] show ?case by auto
qed simp

lemma urls_grow_run_index:
  "set (map imageUrl (downloadPromises st)) \<subseteq>
   set (map imageUrl (downloadPromises (run_index url dest acts st)))"
  unfolding run_index_def
proof (induction acts arbitrary: st)
  case (Cons a acts)
  from urls_grow_step_index[of st url dest a] Cons[of "step_index url dest a st"]
  show ?case by auto
qed simp

lemma delivered_asset:
  assumes q: "queue_inv (processedUrls st) (downloadQueue st)"
    and f: "asset_filter (resp_url r)" and x: "asset_extract (resp_url r) \<noteq> None"
  shows "resp_url r \<in> set (map imageUrl (downloadQueue (fst (on_response_asset r st))))"
proof (cases "resp_url r \<in> set (processedUrls st)")
  case True
  with q x have "resp_url r \<in> set (map imageUrl (downloadQueue st))"
    unfolding queue_inv_def by blast
  with urls_grow_asset[of st r] show ?thesis by blast
next
  case False
  with f x show ?thesis by (auto simp: on_response_asset_def split: option.splits)
qed

lemma delivered_asset_index:
  assumes q: "queue_inv (urlPassed st) (downloadPromises st)"
    and f: "asset_filter (resp_url r)" and x: "asset_extract (resp_url r) \<noteq> None"
    and ok: "resp_ok r"
  shows "resp_url r \<in> set (map imageUrl (downloadPromises (fst (on_response_asset_index r st))))"
proof (cases "resp_url r \<in> set (urlPassed st)")
  case True
  with q x have "resp_url r \<in> set (map imageUrl (downloadPromises st))"
    unfolding queue_inv_def by blast
  with urls_grow_asset_index[of st r] show ?thesis by blast
next
  case False
  with f x ok show ?thesis by (auto simp: on_response_asset_index_def split: option.splits)
qed

lemma delivered_run:
  assumes f: "asset_filter (resp_url r)" and x: "asset_extract (resp_url r) \<noteq> None"
    and p: "\<not> (resp_url r = url \<and> resp_ok r)"
  shows "queue_inv (processedUrls st) (downloadQueue st) \<Longrightarrow> Response r \<in> set acts \<Longrightarrow>
    resp_url r \<in> set (map imageUrl (downloadQueue (run url dest acts st)))"
proof (induction acts arbitrary: st)
  case Nil
  then show ?case by simp
next
  case (Cons a acts)
  have r: "run url dest (a # acts) st = run url dest acts (step url dest a st)"
    by (simp add: run_def)
  show ?case
  proof (cases "a = Response r")
    case True
    from delivered_asset[OF Cons.prems(1) f x] p True
    have "resp_url r \<in> set (map imageUrl (downloadQueue (step url dest a st)))"
      by (auto simp: on_response_def catch_queue)
    with urls_grow_run[of "step url dest a st" url dest acts] show ?thesis
      unfolding r by blast
  next
    case False
    with Cons.prems(2) have "Response r \<in> set acts" by simp
    from Cons.IH[OF queue_inv_step[OF Cons.prems(1)] this] show ?thesis unfolding r .
  qed
qed

lemma delivered_run_index:
  assumes f: "asset_filter (resp_url r)" and x: "asset_extract (resp_url r) \<noteq> None"
    and p: "resp_ok r" "resp_url r \<noteq> primary_url_index url"
  shows "queue_inv (urlPassed st) (downloadPromises st) \<Longrightarrow> Response r \<in> set acts \<Longrightarrow>
    resp_url r \<in> set (map imageUrl (downloadPromises (run_index url dest acts st)))"
proof (induction acts arbitrary: st)
  case Nil
  then show ?case by simp
next
  case (Cons a acts)
  have r: "run_index url dest (a # acts) st = run_index url dest acts (step_index url dest a st)"
    by (simp add: run_index_def)
  show ?case
  proof (cases "a = Response r")
    case True
    from delivered_asset_index[OF Cons.prems(1) f x p(1)] p True
    have "resp_url r \<in> set (map imageUrl (downloadPromises (step_index url dest a st)))"
      by (auto simp: on_response_index_def rejects_queue)
    with urls_grow_run_index[of "step_index url dest a st" url dest acts] show ?thesis
      unfolding r by blast
  next
    case False
    with Cons.prems(2) have "Response r \<in> set acts" by simp
    from Cons.IH[OF queue_inv_step_index[OF Cons.prems(1)] this] show ?thesis unfolding r .
  qed
qed

lemma count_distinct:
  "distinct (map f xs) \<Longrightarrow>
   length (filter (\<lambda>x. f x = u) xs) = (if u \<in> set (map f xs) then 1 else 0)"
  by (induction xs) auto

lemma queue_inv_count:
  assumes "queue_inv seen q"
  shows "length (filter (\<lambda>t. imageUrl t = u) q) \<le> 1"
    and "u \<in> set (map imageUrl q) \<Longrightarrow> length (filter (\<lambda>t. imageUrl t = u) q) = 1"
    and "asset_extract u = None \<Longrightarrow> length (filter (\<lambda>t. imageUrl t = u) q) = 0"
proof -
  from assms have d: "distinct (map imageUrl q)" unfolding queue_inv_def by simp
  from count_distinct[OF d, of u]
  show "length (filter (\<lambda>t. imageUrl t = u) q) \<le> 1"
    and "u \<in> set (map imageUrl q) \<Longrightarrow> length (filter (\<lambda>t. imageUrl t = u) q) = 1"
    by (simp_all split: if_splits)
  assume n: "asset_extract u = None"
  have "u \<notin> set (map imageUrl q)"
  proof
    assume "u \<in> set (map imageUrl q)"
    then obtain t where t: "t \<in> set q" "imageUrl t = u" by auto
    then have "descr t \<in> set (map descr q)" by simp
    with assms have "asset_extract (fst (descr t)) = Some (snd (descr t))"
      unfolding queue_inv_def by blast
    with t n show False by (simp add: descr_def)
  qed
  with count_distinct[OF d, of u] show "length (filter (\<lambda>t. imageUrl t = u) q) = 0" by simp
qed

text \<open>
  C1, as amended. Whatever response events are delivered, in whatever order the bodies
  arrive and the downloads end, the queue holds at most one entry for a URL: the
  membership test and the insertion stand in one uninterrupted part of the handler.
  A URL that passes the filter and matches the extraction pattern, delivered in a
  response that is not the awaited page response (in \<^verbatim>\<open>src/index.ts\<close>: in an ok
  response that is not the page), has exactly one entry. A URL that the extraction
  pattern does not match has none.
\<close>

theorem asset_enqueued_at_most_once:
  "length (filter (\<lambda>t. imageUrl t = u) (downloadQueue (run url dest acts (init b)))) \<le> 1 \<and>
   (Response r \<in> set acts \<and> \<not> (resp_url r = url \<and> resp_ok r) \<and> asset_filter (resp_url r) \<and>
    asset_extract (resp_url r) \<noteq> None \<longrightarrow>
      length (filter (\<lambda>t. imageUrl t = resp_url r)
        (downloadQueue (run url dest acts (init b)))) = 1) \<and>
   (asset_extract u = None \<longrightarrow>
      length (filter (\<lambda>t. imageUrl t = u) (downloadQueue (run url dest acts (init b)))) = 0) \<and>
   length (filter (\<lambda>t. imageUrl t = u)
     (downloadPromises (run_index url dest acts (init_index b)))) \<le> 1 \<and>
   (Response r \<in> set acts \<and> resp_ok r \<and> resp_url r \<noteq> primary_url_index url \<and>
    asset_filter (resp_url r) \<and> asset_extract (resp_url r) \<noteq> None \<longrightarrow>
      length (filter (\<lambda>t. imageUrl t = resp_url r)
        (downloadPromises (run_index url dest acts (init_index b)))) = 1) \<and>
   (asset_extract u = None \<longrightarrow>
      length (filter (\<lambda>t. imageUrl t = u)
        (downloadPromises (run_index url dest acts (init_index b)))) = 0)"
proof -
  note q = queue_inv_run[OF queue_inv_init, of url dest acts b]
  note qi = queue_inv_run_index[OF queue_inv_init_index, of url dest acts b]
  show ?thesis
  proof (intro conjI impI)
    show "length (filter (\<lambda>t. imageUrl t = u) (downloadQueue (run url dest acts (init b)))) \<le> 1"
      by (rule queue_inv_count(1)[OF q])
    show "length (filter (\<lambda>t. imageUrl t = u)
        (downloadPromises (run_index url dest acts (init_index b)))) \<le> 1"
      by (rule queue_inv_count(1)[OF qi])
  next
    assume "asset_extract u = None"
    then show "length (filter (\<lambda>t. imageUrl t = u)
        (downloadQueue (run url dest acts (init b)))) = 0"
      and "length (filter (\<lambda>t. imageUrl t = u)
        (downloadPromises (run_index url dest acts (init_index b)))) = 0"
      by (rule queue_inv_count(3)[OF q], rule queue_inv_count(3)[OF qi])
  next
    assume "Response r \<in> set acts \<and> \<not> (resp_url r = url \<and> resp_ok r) \<and>
      asset_filter (resp_url r) \<and> asset_extract (resp_url r) \<noteq> None"
    then have "resp_url r \<in> set (map imageUrl (downloadQueue (run url dest acts (init b))))"
      by (intro delivered_run[OF _ _ _ queue_inv_init]) simp_all
    then show "length (filter (\<lambda>t. imageUrl t = resp_url r)
        (downloadQueue (run url dest acts (init b)))) = 1"
      by (rule queue_inv_count(2)[OF q])
  next
    assume "Response r \<in> set acts \<and> resp_ok r \<and> resp_url r \<noteq> primary_url_index url \<and>
      asset_filter (resp_url r) \<and> asset_extract (resp_url r) \<noteq> None"
    then have "resp_url r \<in>
        set (map imageUrl (downloadPromises (run_index url dest acts (init_index b))))"
      by (intro delivered_run_index[OF _ _ _ _ queue_inv_init_index]) simp_all
    then show "length (filter (\<lambda>t. imageUrl t = resp_url r)
        (downloadPromises (run_index url dest acts (init_index b)))) = 1"
      by (rule queue_inv_count(2)[OF qi])
  qed
qed

lemma primary_url_index_page: "primary_url_index url_page = url_page"
  by (simp add: primary_url_index_def url_page_def)

theorem asset_enqueued_at_most_once_witness:
  "length (filter (\<lambda>t. imageUrl t = url_a1)
     (downloadQueue (run url_page ''./dl''
        [Response (asset_response url_a1), Response (asset_response url_a1)] (init bar_new)))) = 1 \<and>
   length (filter (\<lambda>t. imageUrl t = url_a1)
     (downloadPromises (run_index url_page ''./dl''
        [Response (asset_response url_a1), Response (asset_response url_a1)]
        (init_index bar_new)))) = 1"
  using asset_enqueued_at_most_once[of url_a1 url_page "''./dl''"
      "[Response (asset_response url_a1), Response (asset_response url_a1)]" bar_new
      "asset_response url_a1"]
  by (simp add: asset_response_def examples_filter examples_extract examples_distinct
      primary_url_index_page)

text \<open>
  C1, as stated, fails: a URL whose file name has a second hyphen passes the filter, and
  after its response event the queue holds no entry for it, in either variant.
\<close>

theorem asset_enqueued_counterexample:
  "asset_filter url_hyphen \<and>
   length (filter (\<lambda>t. imageUrl t = url_hyphen)
     (downloadQueue (run url_page ''./dl'' [Response (asset_response url_hyphen)]
        (init bar_new)))) = 0 \<and>
   length (filter (\<lambda>t. imageUrl t = url_hyphen)
     (downloadPromises (run_index url_page ''./dl'' [Response (asset_response url_hyphen)]
        (init_index bar_new)))) = 0"
  by (simp add: run_def run_index_def init_def init_index_def on_response_def
      on_response_index_def on_response_asset_def on_response_asset_index_def asset_response_def
      examples_filter examples_extract examples_distinct primary_url_index_page)

section \<open>The files written\<close>

lemma download_file:
  assumes "downloadWithRetry net u f n dest = Some d"
  shows "\<exists>buffer. dl_file d = Some (file_path dest f n, buffer)"
  using loop_only_success[OF assms[unfolded downloadWithRetry_def]]
  unfolding returned_on_success_def by blast

lemma download_file_index:
  assumes "downloadWithRetry_index net u f n dest = Some d"
  shows "\<exists>buffer. dl_file d = Some (file_path dest f n, buffer)"
  using loop_index_only_success[OF assms[unfolded downloadWithRetry_index_def]]
  unfolding returned_on_success_def by blast

lemma files_inv_grow:
  "files_inv dest fs q \<Longrightarrow> set (map descr q) \<subseteq> set (map descr q') \<Longrightarrow> files_inv dest fs q'"
  unfolding files_inv_def by blast

lemma files_inv_written:
  assumes "files_inv dest fs q" and "k < length q"
  shows "files_inv dest (fs @ [(file_path dest (folder (q ! k)) (name (q ! k)), buffer)]) q"
proof -
  have "descr (q ! k) \<in> set (map descr q)" using assms(2) by simp
  then have "\<exists>y\<in>set (map descr q).
      file_path dest (folder (q ! k)) (name (q ! k)) = file_path dest (fst (snd y)) (snd (snd y))"
    by (intro bexI[of _ "descr (q ! k)"]) (simp_all add: descr_def)
  with assms(1) show ?thesis unfolding files_inv_def by auto
qed

lemma descr_grow_asset:
  "set (map descr (downloadQueue st)) \<subseteq>
   set (map descr (downloadQueue (fst (on_response_asset r st))))"
  by (auto simp: on_response_asset_def split: option.splits)

lemma descr_grow_asset_index:
  "set (map descr (downloadPromises st)) \<subseteq>
   set (map descr (downloadPromises (fst (on_response_asset_index r st))))"
  by (auto simp: on_response_asset_index_def split: option.splits)

lemma files_inv_resume:
  assumes "files_inv dest (files st) (downloadQueue st)"
  shows "files_inv dest (files (on_response_resume r st)) (downloadQueue (on_response_resume r st))"
proof (cases "on_response_manifest r st")
  case (Pair st' e)
  then have q: "files_inv dest (files st') (downloadQueue st')"
    using assms manifest_queue[of r st] by simp
  show ?thesis
  proof (cases e)
    case None
    with Pair files_inv_grow[OF q descr_grow_asset[of st' r]] show ?thesis
      by (simp add: on_response_resume_def catch_queue asset_files)
  next
    case (Some err)
    with Pair q show ?thesis by (simp add: on_response_resume_def)
  qed
qed

lemma files_inv_resume_index:
  assumes "files_inv dest (files_index st) (downloadPromises st)"
  shows "files_inv dest (files_index (on_response_resume_index r st))
           (downloadPromises (on_response_resume_index r st))"
proof (cases "on_response_manifest_index r st")
  case (Pair st' e)
  then have q: "files_inv dest (files_index st') (downloadPromises st')"
    using assms manifest_queue_index[of r st] by simp
  show ?thesis
  proof (cases e)
    case None
    with Pair files_inv_grow[OF q descr_grow_asset_index[of st' r]] show ?thesis
      by (simp add: on_response_resume_index_def rejects_queue asset_files_index)
  next
    case (Some err)
    with Pair q show ?thesis by (simp add: on_response_resume_index_def)
  qed
qed

lemma files_inv_step:
  assumes "files_inv dest (files st) (downloadQueue st)"
  shows "files_inv dest (files (step url dest a st)) (downloadQueue (step url dest a st))"
proof (cases a)
  case (Response r)
  with assms files_inv_grow[OF assms descr_grow_asset[of st r]] show ?thesis
    by (simp add: on_response_def catch_queue asset_files)
next
  case (TextReady i)
  have "files_inv dest (files (st\<lparr>awaiting := w\<rparr>)) (downloadQueue (st\<lparr>awaiting := w\<rparr>))" for w
    using assms by simp
  from files_inv_resume[OF this] TextReady assms show ?thesis by simp
next
  case (Downloaded k net)
  show ?thesis
  proof (cases "k < length (downloadQueue st) \<and> phase (downloadQueue st ! k) = Fetching")
    case False
    have "step url dest a st = st" unfolding Downloaded by (simp only: step.simps False if_False)
    with assms show ?thesis by simp
  next
    case True
    show ?thesis
    proof (cases "downloadWithRetry net (imageUrl (downloadQueue st ! k))
        (folder (downloadQueue st ! k)) (name (downloadQueue st ! k)) dest")
      case None
      from True have "k < length (downloadQueue st)" "phase (downloadQueue st ! k) = Fetching" by simp_all
      then have "step url dest a st = st"
        unfolding Downloaded by (simp only: step.simps if_True None option.case simp_thms)
      with assms show ?thesis by simp
    next
      case (Some d)
      let ?t = "downloadQueue st ! k"
      from download_file[OF Some] obtain buffer where
        b: "dl_file d = Some (file_path dest (folder ?t) (name ?t), buffer)" by blast
      from True have k: "k < length (downloadQueue st)" and ph: "phase (downloadQueue st ! k) = Fetching"
        by simp_all
      have e: "step url dest a st =
          st\<lparr>progressBar := fold call_bar (dl_calls d) (progressBar st),
             files := files st @ [(file_path dest (folder ?t) (name ?t), buffer)],
             downloadQueue := (downloadQueue st)[k := ?t\<lparr>phase := Fetched\<rparr>]\<rparr>"
        unfolding Downloaded
        by (simp only: step.simps k ph if_True Some option.case b simp_thms)
      have "files_inv dest (files st @ [(file_path dest (folder ?t) (name ?t), buffer)])
          (downloadQueue st)"
        by (rule files_inv_written[OF assms k])
      then have "files_inv dest (files st @ [(file_path dest (folder ?t) (name ?t), buffer)])
            ((downloadQueue st)[k := ?t\<lparr>phase := Fetched\<rparr>])"
        by (rule files_inv_grow) (simp only: map_descr_phase[OF k] subset_refl)
      then show ?thesis unfolding e by simp
    qed
  qed
next
  case (ThenRuns k)
  show ?thesis
  proof (cases "k < length (downloadQueue st) \<and> phase (downloadQueue st ! k) = Fetched")
    case False
    have "step url dest a st = st" unfolding ThenRuns by (simp only: step.simps False if_False)
    with assms show ?thesis by simp
  next
    case True
    then have k: "k < length (downloadQueue st)"
      and ph: "phase (downloadQueue st ! k) = Fetched" by simp_all
    have e: "step url dest a st =
        st\<lparr>progressBar := call_bar Increment (progressBar st),
           downloadQueue := (downloadQueue st)[k := (downloadQueue st ! k)\<lparr>phase := Counted\<rparr>]\<rparr>"
      unfolding ThenRuns by (simp only: step.simps k ph if_True simp_thms)
    from assms have "files_inv dest (files st)
        ((downloadQueue st)[k := (downloadQueue st ! k)\<lparr>phase := Counted\<rparr>])"
      by (rule files_inv_grow) (simp only: map_descr_phase[OF k] subset_refl)
    then show ?thesis unfolding e by simp
  qed
qed

lemma files_inv_step_index:
  assumes "files_inv dest (files_index st) (downloadPromises st)"
  shows "files_inv dest (files_index (step_index url dest a st))
           (downloadPromises (step_index url dest a st))"
proof (cases a)
  case (Response r)
  with assms files_inv_grow[OF assms descr_grow_asset_index[of st r]] show ?thesis
    by (simp add: on_response_index_def rejects_queue asset_files_index)
next
  case (TextReady i)
  have "files_inv dest (files_index (st\<lparr>awaiting_index := w\<rparr>))
          (downloadPromises (st\<lparr>awaiting_index := w\<rparr>))" for w
    using assms by simp
  from files_inv_resume_index[OF this] TextReady assms show ?thesis by simp
next
  case (Downloaded k net)
  show ?thesis
  proof (cases "k < length (downloadPromises st) \<and> phase (downloadPromises st ! k) = Fetching")
    case False
    have "step_index url dest a st = st"
      unfolding Downloaded by (simp only: step_index.simps False if_False)
    with assms show ?thesis by simp
  next
    case True
    show ?thesis
    proof (cases "downloadWithRetry_index net (imageUrl (downloadPromises st ! k))
        (folder (downloadPromises st ! k)) (name (downloadPromises st ! k)) dest")
      case None
      from True have "k < length (downloadPromises st)" "phase (downloadPromises st ! k) = Fetching" by simp_all
      then have "step_index url dest a st = st"
        unfolding Downloaded by (simp only: step_index.simps if_True None option.case simp_thms)
      with assms show ?thesis by simp
    next
      case (Some d)
      let ?t = "downloadPromises st ! k"
      from download_file_index[OF Some] obtain buffer where
        b: "dl_file d = Some (file_path dest (folder ?t) (name ?t), buffer)" by blast
      from True have k: "k < length (downloadPromises st)" and ph: "phase (downloadPromises st ! k) = Fetching"
        by simp_all
      have e: "step_index url dest a st =
          st\<lparr>bar1 := fold call_bar (dl_calls d) (bar1 st),
             files_index := files_index st @ [(file_path dest (folder ?t) (name ?t), buffer)],
             downloadPromises := (downloadPromises st)[k := ?t\<lparr>phase := Counted\<rparr>]\<rparr>"
        unfolding Downloaded
        by (simp only: step_index.simps k ph if_True Some option.case b simp_thms)
      have "files_inv dest (files_index st @ [(file_path dest (folder ?t) (name ?t), buffer)])
          (downloadPromises st)"
        by (rule files_inv_written[OF assms k])
      then have "files_inv dest
            (files_index st @ [(file_path dest (folder ?t) (name ?t), buffer)])
            ((downloadPromises st)[k := ?t\<lparr>phase := Counted\<rparr>])"
        by (rule files_inv_grow) (simp only: map_descr_phase[OF k] subset_refl)
      then show ?thesis unfolding e by simp
    qed
  qed
next
  case (ThenRuns k)
  with assms show ?thesis by simp
qed

lemma files_inv_run:
  "files_inv dest (files st) (downloadQueue st) \<Longrightarrow>
   files_inv dest (files (run url dest acts st)) (downloadQueue (run url dest acts st))"
  unfolding run_def by (induction acts arbitrary: st) (simp_all add: files_inv_step)

lemma files_inv_run_index:
  "files_inv dest (files_index st) (downloadPromises st) \<Longrightarrow>
   files_inv dest (files_index (run_index url dest acts st))
     (downloadPromises (run_index url dest acts st))"
  unfolding run_index_def by (induction acts arbitrary: st) (simp_all add: files_inv_step_index)

lemma captures_of_entry:
  assumes "queue_inv seen q" and "y \<in> set (map descr q)"
  shows "fst (snd y) \<noteq> [] \<and> CHR ''/'' \<notin> set (fst (snd y)) \<and> CHR ''-'' \<notin> set (fst (snd y)) \<and>
         snd (snd y) \<noteq> [] \<and> list_all is_digit (snd (snd y)) \<and>
         (fst (snd y) \<noteq> ''.'' \<and> fst (snd y) \<noteq> ''..'' \<longrightarrow>
            resolve_below (fst (snd y) @ ''/'' @ snd (snd y) @ ''.jpg'') =
              Some [fst (snd y), snd (snd y) @ ''.jpg''])"
proof -
  obtain u f n where y: "y = (u, f, n)" by (cases y) auto
  from assms have "asset_extract (fst y) = Some (snd y)" unfolding queue_inv_def by blast
  with y have "asset_extract u = Some (f, n)" by simp
  from asset_extract_sound[OF this] have
    c: "f \<noteq> []" "list_all is_folder_char f" "n \<noteq> []" "list_all is_digit n" by auto
  from folder_chars[OF c(2)] have s: "CHR ''/'' \<notin> set f" "CHR ''-'' \<notin> set f" by simp_all
  from digit_chars[OF c(4)] have d: "CHR ''/'' \<notin> set n" .
  have "resolve_below (f @ ''/'' @ n @ ''.jpg'') = Some [f, n @ ''.jpg'']"
    if "f \<noteq> ''.''" "f \<noteq> ''..''"
    using two_levels[OF c(1) s(1) that d] .
  with c s y show ?thesis by simp
qed

lemma files_inv_init: "files_inv dest (files (init b)) (downloadQueue (init b))"
  by (simp add: files_inv_def init_def)

lemma files_inv_init_index:
  "files_inv dest (files_index (init_index b)) (downloadPromises (init_index b))"
  by (simp add: files_inv_def init_index_def)

lemma captures_of_file:
  assumes q: "queue_inv seen q" and f: "files_inv dest fs q" and x: "(p, body) \<in> set fs"
  shows "\<exists>f n. p = dest @ ''/'' @ f @ ''/'' @ n @ ''.jpg'' \<and> f \<noteq> [] \<and> CHR ''/'' \<notin> set f \<and>
           CHR ''-'' \<notin> set f \<and> n \<noteq> [] \<and> list_all is_digit n \<and>
           (f \<noteq> ''.'' \<and> f \<noteq> ''..'' \<longrightarrow>
              resolve_below (f @ ''/'' @ n @ ''.jpg'') = Some [f, n @ ''.jpg''])"
proof -
  from f[unfolded files_inv_def, rule_format, OF x]
  have "\<exists>y\<in>set (map descr q). p = file_path dest (fst (snd y)) (snd (snd y))"
    by (simp only: fst_conv)
  then obtain y where y: "y \<in> set (map descr q)"
    "p = file_path dest (fst (snd y)) (snd (snd y))" by (rule bexE)
  from captures_of_entry[OF q y(1)] y(2) show ?thesis
    by (intro exI[of _ "fst (snd y)"] exI[of _ "snd (snd y)"]) (simp add: file_path_def)
qed

text \<open>
  C10, as amended. In every run, the folder of an entry of the queue is not empty and
  holds neither a slash nor a hyphen, its name is a non-empty string of decimal digits,
  and every file written has the path of such a folder and name under the destination
  folder. When the folder is neither \<^verbatim>\<open>.\<close> nor \<^verbatim>\<open>..\<close>, the path lands exactly two
  levels below the destination folder.
\<close>

theorem written_paths_two_levels_below:
  "((p, body) \<in> set (files (run url dest acts (init b))) \<or>
    (p, body) \<in> set (files_index (run_index url dest acts (init_index b))) \<longrightarrow>
      (\<exists>f n. p = dest @ ''/'' @ f @ ''/'' @ n @ ''.jpg'' \<and> f \<noteq> [] \<and> CHR ''/'' \<notin> set f \<and>
         CHR ''-'' \<notin> set f \<and> n \<noteq> [] \<and> list_all is_digit n \<and>
         (f \<noteq> ''.'' \<and> f \<noteq> ''..'' \<longrightarrow>
            resolve_below (f @ ''/'' @ n @ ''.jpg'') = Some [f, n @ ''.jpg'']))) \<and>
   (t \<in> set (downloadQueue (run url dest acts (init b))) \<or>
    t \<in> set (downloadPromises (run_index url dest acts (init_index b))) \<longrightarrow>
      folder t \<noteq> [] \<and> CHR ''/'' \<notin> set (folder t) \<and> CHR ''-'' \<notin> set (folder t) \<and>
      name t \<noteq> [] \<and> list_all is_digit (name t) \<and>
      (folder t \<noteq> ''.'' \<and> folder t \<noteq> ''..'' \<longrightarrow>
         resolve_below (folder t @ ''/'' @ name t @ ''.jpg'') =
           Some [folder t, name t @ ''.jpg'']))"
proof -
  note q = queue_inv_run[OF queue_inv_init, of url dest acts b]
  note qi = queue_inv_run_index[OF queue_inv_init_index, of url dest acts b]
  note f = files_inv_run[OF files_inv_init, of dest url acts b]
  note fi = files_inv_run_index[OF files_inv_init_index, of dest url acts b]
  show ?thesis
  proof (rule conjI; rule impI)
    assume "(p, body) \<in> set (files (run url dest acts (init b))) \<or>
      (p, body) \<in> set (files_index (run_index url dest acts (init_index b)))"
    then show "\<exists>f n. p = dest @ ''/'' @ f @ ''/'' @ n @ ''.jpg'' \<and> f \<noteq> [] \<and> CHR ''/'' \<notin> set f \<and>
         CHR ''-'' \<notin> set f \<and> n \<noteq> [] \<and> list_all is_digit n \<and>
         (f \<noteq> ''.'' \<and> f \<noteq> ''..'' \<longrightarrow>
            resolve_below (f @ ''/'' @ n @ ''.jpg'') = Some [f, n @ ''.jpg''])"
      using captures_of_file[OF q f] captures_of_file[OF qi fi] by blast
  next
    assume "t \<in> set (downloadQueue (run url dest acts (init b))) \<or>
      t \<in> set (downloadPromises (run_index url dest acts (init_index b)))"
    then have "descr t \<in> set (map descr (downloadQueue (run url dest acts (init b)))) \<or>
      descr t \<in> set (map descr (downloadPromises (run_index url dest acts (init_index b))))"
      by auto
    with captures_of_entry[OF q, of "descr t"] captures_of_entry[OF qi, of "descr t"]
    show "folder t \<noteq> [] \<and> CHR ''/'' \<notin> set (folder t) \<and> CHR ''-'' \<notin> set (folder t) \<and>
      name t \<noteq> [] \<and> list_all is_digit (name t) \<and>
      (folder t \<noteq> ''.'' \<and> folder t \<noteq> ''..'' \<longrightarrow>
         resolve_below (folder t @ ''/'' @ name t @ ''.jpg'') =
           Some [folder t, name t @ ''.jpg''])"
      unfolding descr_def by (elim disjE) simp_all
  qed
qed

theorem written_paths_two_levels_below_witness:
  "(''./dl/OnePiece/001.jpg'', ''jpeg'') \<in>
     set (files (run url_page ''./dl'' [Response (asset_response url_a1), Downloaded 0 net_ok]
       (init bar_new))) \<and>
   resolve_below ''OnePiece/001.jpg'' = Some [''OnePiece'', ''001.jpg'']"
proof -
  let ?acts = "[Response (asset_response url_a1), Downloaded 0 net_ok]"
  let ?t = "\<lparr>imageUrl = url_a1, folder = ''OnePiece'', name = ''001'', phase = Fetched\<rparr>"
  have r: "run url_page ''./dl'' ?acts (init bar_new) =
      \<lparr>totalImages = 0, processedUrls = [url_a1], downloadQueue = [?t],
       progressBar = bar_new, console = [], awaiting = [],
       files = [(''./dl/OnePiece/001.jpg'', ''jpeg'')]\<rparr>"
    by (simp add: run_def init_def on_response_def on_response_asset_def asset_response_def
        examples_filter examples_extract examples_distinct net_ok_download download_start_def
        file_path_def)
  have "?t \<in> set (downloadQueue (run url_page ''./dl'' ?acts (init bar_new)))"
    by (simp add: r)
  with written_paths_two_levels_below[of _ _ url_page "''./dl''" ?acts bar_new ?t]
  have "resolve_below ''OnePiece/001.jpg'' = Some [''OnePiece'', ''001.jpg'']" by simp
  then show ?thesis by (simp add: r)
qed

text \<open>
  C10, as stated, fails: a URL whose file name starts with \<^verbatim>\<open>..-\<close> passes the filter,
  its folder is \<^verbatim>\<open>..\<close>, and the file is written to \<^verbatim>\<open>./dl/../12.jpg\<close>, which leaves
  the destination folder, in either variant.
\<close>

theorem written_paths_counterexample:
  "asset_filter url_dotdot \<and>
   (''./dl/../12.jpg'', ''jpeg'') \<in>
     set (files (run url_page ''./dl'' [Response (asset_response url_dotdot), Downloaded 0 net_ok]
       (init bar_new))) \<and>
   (''./dl/../12.jpg'', ''jpeg'') \<in>
     set (files_index (run_index url_page ''./dl''
       [Response (asset_response url_dotdot), Downloaded 0 net_ok] (init_index bar_new))) \<and>
   resolve_below ''../12.jpg'' = None"
proof -
  have i: "downloadWithRetry_index net_ok u f n dest =
      Some (download_start\<lparr>dl_file := Some (file_path dest f n, ''jpeg''),
        dl_calls := [Increment]\<rparr>)" for u f n dest
    unfolding downloadWithRetry_index_def
    by (subst loop_index_success[where buffer = "''jpeg''"])
      (simp_all add: net_ok_def download_start_def downloadWithRetry_done_index_def)
  have "(''./dl/../12.jpg'', ''jpeg'') \<in>
     set (files (run url_page ''./dl'' [Response (asset_response url_dotdot), Downloaded 0 net_ok]
       (init bar_new)))"
    by (simp add: run_def init_def on_response_def on_response_asset_def asset_response_def
        examples_filter examples_extract examples_distinct net_ok_download download_start_def
        file_path_def)
  moreover have "(''./dl/../12.jpg'', ''jpeg'') \<in>
     set (files_index (run_index url_page ''./dl''
       [Response (asset_response url_dotdot), Downloaded 0 net_ok] (init_index bar_new)))"
    by (simp add: run_index_def init_index_def on_response_index_def on_response_asset_index_def
        asset_response_def examples_filter examples_extract examples_distinct i
        download_start_def file_path_def primary_url_index_page)
  moreover have "resolve_below ''../12.jpg'' = None"
    by (simp add: resolve_below_def)
  ultimately show ?thesis by (simp add: examples_filter)
qed

section \<open>The total and the value of the progress bar\<close>

lemma fold_keeps_total:
  "list_all keeps_total cs \<Longrightarrow> bar_total (fold call_bar cs b) = bar_total b"
proof (induction cs arbitrary: b)
  case (Cons c cs)
  then have "keeps_total c" and "list_all keeps_total cs" by simp_all
  from this(1) have "bar_total (call_bar c b) = bar_total b" by (cases c) simp_all
  with Cons.IH[OF \<open>list_all keeps_total cs\<close>, of "call_bar c b"] show ?case by simp
qed simp

lemma loop_calls:
  assumes "downloadWithRetry_loop net path d = Some d'"
  shows "list_all keeps_total (dl_calls d) \<longrightarrow> list_all keeps_total (dl_calls d')"
proof (rule downloadWithRetry_loop.raw_induct
    [where P = "\<lambda>net path d d'.
       list_all keeps_total (dl_calls d) \<longrightarrow> list_all keeps_total (dl_calls d')",
      OF _ assms], goal_cases)
  case (1 loop net path d d')
  show ?case
  proof (cases "succeeds (net (dl_attempts d))")
    case True
    then obtain buffer where "net (dl_attempts d) = Success buffer"
      by (auto simp: succeeds_iff)
    with 1(2) have "d' = downloadWithRetry_done path buffer d" by simp
    then show ?thesis by (simp add: downloadWithRetry_done_def)
  next
    case False
    with 1(2) have "loop net path (downloadWithRetry_catch d) = Some d'"
      by (cases "net (dl_attempts d)") simp_all
    from 1(1)[OF this] show ?thesis by (simp add: downloadWithRetry_catch_def)
  qed
qed

lemma loop_index_calls:
  assumes "downloadWithRetry_loop_index net u path d = Some d'"
  shows "list_all keeps_total (dl_calls d) \<longrightarrow> list_all keeps_total (dl_calls d')"
proof (rule downloadWithRetry_loop_index.raw_induct
    [where P = "\<lambda>net u path d d'.
       list_all keeps_total (dl_calls d) \<longrightarrow> list_all keeps_total (dl_calls d')",
      OF _ assms], goal_cases)
  case (1 loop net u path d d')
  show ?case
  proof (cases "succeeds (net (dl_attempts d))")
    case True
    then obtain buffer where "net (dl_attempts d) = Success buffer"
      by (auto simp: succeeds_iff)
    with 1(2) have "d' = downloadWithRetry_done_index path buffer d" by simp
    then show ?thesis by (simp add: downloadWithRetry_done_index_def)
  next
    case False
    with 1(2) have "loop net u path
        (downloadWithRetry_catch_index u (attempt_error (net (dl_attempts d))) d) = Some d'"
      by (cases "net (dl_attempts d)") simp_all
    from 1(1)[OF this] show ?thesis by (simp add: downloadWithRetry_catch_index_def)
  qed
qed

lemma download_calls:
  "downloadWithRetry net u f n dest = Some d \<Longrightarrow> list_all keeps_total (dl_calls d)"
  using loop_calls[of net "file_path dest f n" download_start d]
  by (simp add: downloadWithRetry_def download_start_def)

lemma download_calls_index:
  "downloadWithRetry_index net u f n dest = Some d \<Longrightarrow> list_all keeps_total (dl_calls d)"
  using loop_index_calls[of net u "file_path dest f n" download_start d]
  by (simp add: downloadWithRetry_index_def download_start_def)

lemma resume_with_manifest:
  assumes "manifest_match (resp_text r) = Some images"
  shows "totalImages (on_response_resume r st) = length (split_on CHR '','' images)"
    and "progressBar (on_response_resume r st) =
      \<lparr>bar_total = length (split_on CHR '','' images), bar_value = 0\<rparr>"
  using assms
  by (simp_all add: on_response_resume_def on_response_manifest_def catch_queue asset_files)

lemma resume_with_manifest_index:
  assumes "manifest_match (resp_text r) = Some images"
  shows "taille (on_response_resume_index r st) = length (split_on CHR '','' images)"
    and "bar1 (on_response_resume_index r st) =
      \<lparr>bar_total = length (split_on CHR '','' images), bar_value = 0\<rparr>"
  using assms
  by (simp_all add: on_response_resume_index_def on_response_manifest_index_def rejects_queue
      asset_files_index)

lemma step_keeps_total:
  assumes "\<not> is_TextReady a"
  shows "totalImages (step url dest a st) = totalImages st"
    and "bar_total (progressBar (step url dest a st)) = bar_total (progressBar st)"
proof -
  have "totalImages (step url dest a st) = totalImages st \<and>
      bar_total (progressBar (step url dest a st)) = bar_total (progressBar st)"
  proof (cases a)
    case (Response r)
    then show ?thesis by (simp add: on_response_def catch_queue asset_files)
  next
    case (TextReady i)
    with assms show ?thesis by simp
  next
    case (Downloaded k net)
    show ?thesis
    proof (cases "downloadWithRetry net (imageUrl (downloadQueue st ! k))
        (folder (downloadQueue st ! k)) (name (downloadQueue st ! k)) dest")
      case None
      with Downloaded show ?thesis by simp
    next
      case (Some d)
      from fold_keeps_total[OF download_calls[OF Some]] Downloaded Some show ?thesis by simp
    qed
  next
    case (ThenRuns k)
    then show ?thesis by simp
  qed
  then show "totalImages (step url dest a st) = totalImages st"
    and "bar_total (progressBar (step url dest a st)) = bar_total (progressBar st)"
    by simp_all
qed

lemma step_keeps_total_index:
  assumes "\<not> is_TextReady a"
  shows "taille (step_index url dest a st) = taille st"
    and "bar_total (bar1 (step_index url dest a st)) = bar_total (bar1 st)"
proof -
  have "taille (step_index url dest a st) = taille st \<and>
      bar_total (bar1 (step_index url dest a st)) = bar_total (bar1 st)"
  proof (cases a)
    case (Response r)
    then show ?thesis by (simp add: on_response_index_def rejects_queue asset_files_index)
  next
    case (TextReady i)
    with assms show ?thesis by simp
  next
    case (Downloaded k net)
    show ?thesis
    proof (cases "downloadWithRetry_index net (imageUrl (downloadPromises st ! k))
        (folder (downloadPromises st ! k)) (name (downloadPromises st ! k)) dest")
      case None
      with Downloaded show ?thesis by simp
    next
      case (Some d)
      from fold_keeps_total[OF download_calls_index[OF Some]] Downloaded Some show ?thesis
        by simp
    qed
  next
    case (ThenRuns k)
    then show ?thesis by simp
  qed
  then show "taille (step_index url dest a st) = taille st"
    and "bar_total (bar1 (step_index url dest a st)) = bar_total (bar1 st)"
    by simp_all
qed

text \<open>
  C3, as amended. Every arrival of the body of an ok response for the page whose body
  holds the manifest sets the total to the count of that body and restarts the bar at
  the value 0 with that total; no other step of the run changes the total. The same
  holds for the variant of \<^verbatim>\<open>src/index.ts\<close>.
\<close>

theorem total_set_by_every_manifest:
  "(i < length (awaiting st) \<and> manifest_match (resp_text (awaiting st ! i)) = Some images \<longrightarrow>
      totalImages (step url dest (TextReady i) st) = length (split_on CHR '','' images) \<and>
      progressBar (step url dest (TextReady i) st) =
        \<lparr>bar_total = length (split_on CHR '','' images), bar_value = 0\<rparr>) \<and>
   (\<not> is_TextReady a \<longrightarrow>
      totalImages (step url dest a st) = totalImages st \<and>
      bar_total (progressBar (step url dest a st)) = bar_total (progressBar st)) \<and>
   (i < length (awaiting_index sti) \<and>
    manifest_match (resp_text (awaiting_index sti ! i)) = Some images \<longrightarrow>
      taille (step_index url dest (TextReady i) sti) = length (split_on CHR '','' images) \<and>
      bar1 (step_index url dest (TextReady i) sti) =
        \<lparr>bar_total = length (split_on CHR '','' images), bar_value = 0\<rparr>) \<and>
   (\<not> is_TextReady a \<longrightarrow>
      taille (step_index url dest a sti) = taille sti \<and>
      bar_total (bar1 (step_index url dest a sti)) = bar_total (bar1 sti))"
  using resume_with_manifest[of "awaiting st ! i" images]
    resume_with_manifest_index[of "awaiting_index sti ! i" images]
    step_keeps_total[of a url dest st] step_keeps_total_index[of a url dest sti]
  by simp

lemma net_ok_download_index:
  "downloadWithRetry_index net_ok u f n dest =
     Some (download_start\<lparr>dl_file := Some (file_path dest f n, ''jpeg''),
       dl_calls := [Increment]\<rparr>)"
  unfolding downloadWithRetry_index_def
  by (subst loop_index_success[where buffer = "''jpeg''"])
    (simp_all add: net_ok_def download_start_def downloadWithRetry_done_index_def)

lemma net_503_503_ok_download:
  "downloadWithRetry net_503_503_ok u f n dest =
     Some \<lparr>dl_attempts = 2, dl_slept = 20000,
           dl_calls = [UpdatePayload, UpdatePayload, UpdateValue 1], dl_console = [],
           dl_file = Some (file_path dest f n, ''jpeg'')\<rparr>"
proof -
  let ?p = "file_path dest f n"
  let ?d1 = "downloadWithRetry_catch download_start"
  let ?d2 = "downloadWithRetry_catch ?d1"
  have a: "dl_attempts download_start = 0" "dl_attempts ?d1 = 1" "dl_attempts ?d2 = 2"
    by (simp_all add: download_start_def downloadWithRetry_catch_def)
  have "downloadWithRetry_loop net_503_503_ok ?p download_start =
      downloadWithRetry_loop net_503_503_ok ?p ?d1"
    by (rule loop_failure) (simp add: a net_503_503_ok_def)
  also have "\<dots> = downloadWithRetry_loop net_503_503_ok ?p ?d2"
    by (rule loop_failure) (simp add: a net_503_503_ok_def)
  also have "\<dots> = Some (downloadWithRetry_done ?p ''jpeg'' ?d2)"
    by (rule loop_success) (simp add: a net_503_503_ok_def)
  finally show ?thesis
    by (simp add: downloadWithRetry_def download_start_def downloadWithRetry_catch_def
        downloadWithRetry_done_def)
qed

lemmas run_unfold =
  run_def run_index_def init_def init_index_def on_response_def on_response_index_def
  on_response_resume_def on_response_resume_index_def on_response_manifest_def
  on_response_manifest_index_def on_response_asset_def on_response_asset_index_def
  page_response_def asset_response_def examples_filter examples_extract examples_manifest
  examples_distinct net_ok_download net_ok_download_index net_503_503_ok_download
  download_start_def primary_url_index_page bar_new_def

lemma run_first_download:
  "run url_page ''./dl'' acts_first_download (init bar_new) =
     \<lparr>totalImages = 3, processedUrls = [url_a1],
      downloadQueue =
        [\<lparr>imageUrl = url_a1, folder = ''OnePiece'', name = ''001'', phase = Counted\<rparr>],
      progressBar = \<lparr>bar_total = 3, bar_value = 1\<rparr>, console = [Log ''images detectees''],
      awaiting = [], files = [(file_path ''./dl'' ''OnePiece'' ''001'', ''jpeg'')]\<rparr>"
  by (simp add: acts_first_download_def run_unfold)

lemma run_second_manifest:
  "run url_page ''./dl'' acts_second_manifest (init bar_new) =
     \<lparr>totalImages = 2, processedUrls = [url_a1],
      downloadQueue =
        [\<lparr>imageUrl = url_a1, folder = ''OnePiece'', name = ''001'', phase = Counted\<rparr>],
      progressBar = \<lparr>bar_total = 2, bar_value = 0\<rparr>,
      console = [Log ''images detectees'', Log ''images detectees''],
      awaiting = [], files = [(file_path ''./dl'' ''OnePiece'' ''001'', ''jpeg'')]\<rparr>"
  by (simp add: acts_second_manifest_def acts_first_download_def run_unfold)

lemma run_two_of_one:
  "progressBar (run url_page ''./dl'' acts_two_of_one (init bar_new)) =
     \<lparr>bar_total = 1, bar_value = 2\<rparr>"
  by (simp add: acts_two_of_one_def run_unfold)

lemma run_index_second_manifest:
  "taille (run_index url_page ''./dl'' acts_first_download (init_index bar_new)) = 3"
  "bar1 (run_index url_page ''./dl'' acts_first_download (init_index bar_new)) =
     \<lparr>bar_total = 3, bar_value = 1\<rparr>"
  "taille (run_index url_page ''./dl'' acts_second_manifest (init_index bar_new)) = 2"
  "bar1 (run_index url_page ''./dl'' acts_second_manifest (init_index bar_new)) =
     \<lparr>bar_total = 2, bar_value = 0\<rparr>"
  "bar1 (run_index url_page ''./dl'' acts_two_of_one (init_index bar_new)) =
     \<lparr>bar_total = 1, bar_value = 2\<rparr>"
  by (simp_all add: acts_second_manifest_def acts_first_download_def acts_two_of_one_def
      run_unfold)

theorem total_set_by_every_manifest_witness:
  "totalImages (step url_page ''./dl'' (TextReady 0)
     (run url_page ''./dl'' (acts_first_download @ [Response (page_response body_2)])
        (init bar_new))) = 2 \<and>
   progressBar (step url_page ''./dl'' (TextReady 0)
     (run url_page ''./dl'' (acts_first_download @ [Response (page_response body_2)])
        (init bar_new))) = \<lparr>bar_total = 2, bar_value = 0\<rparr> \<and>
   totalImages (step url_page ''./dl'' (ThenRuns 0)
     (run url_page ''./dl'' (acts_first_download @ [Response (page_response body_2)])
        (init bar_new))) = 3"
proof -
  let ?st = "run url_page ''./dl'' (acts_first_download @ [Response (page_response body_2)])
    (init bar_new)"
  have s: "?st = (run url_page ''./dl'' acts_first_download (init bar_new))
      \<lparr>awaiting := [page_response body_2]\<rparr>"
    by (simp add: run_def on_response_def page_response_def run_first_download[unfolded run_def])
  have a: "awaiting ?st = [page_response body_2]" and t: "totalImages ?st = 3"
    by (simp_all add: s run_first_download)
  have m: "manifest_match (resp_text (awaiting ?st ! 0)) = Some ''1,2''"
    by (simp only: a nth_Cons_0) (simp add: page_response_def examples_manifest)
  from total_set_by_every_manifest[of 0 ?st "''1,2''" url_page "''./dl''" "ThenRuns 0"] a m t
  show ?thesis by simp
qed

text \<open>
  C3, as stated, fails. A second ok response of the page sets the total again, from 3
  to 2, and resets the value of the bar from 1 to 0; and with a manifest of one image
  and two assets downloaded the value 2 exceeds the total 1. The variant of
  \<^verbatim>\<open>src/index.ts\<close> does the same.
\<close>

theorem total_reset_counterexample:
  "totalImages (run url_page ''./dl'' acts_first_download (init bar_new)) = 3 \<and>
   progressBar (run url_page ''./dl'' acts_first_download (init bar_new)) =
     \<lparr>bar_total = 3, bar_value = 1\<rparr> \<and>
   totalImages (run url_page ''./dl'' acts_second_manifest (init bar_new)) = 2 \<and>
   progressBar (run url_page ''./dl'' acts_second_manifest (init bar_new)) =
     \<lparr>bar_total = 2, bar_value = 0\<rparr> \<and>
   progressBar (run url_page ''./dl'' acts_two_of_one (init bar_new)) =
     \<lparr>bar_total = 1, bar_value = 2\<rparr> \<and>
   taille (run_index url_page ''./dl'' acts_first_download (init_index bar_new)) = 3 \<and>
   bar1 (run_index url_page ''./dl'' acts_first_download (init_index bar_new)) =
     \<lparr>bar_total = 3, bar_value = 1\<rparr> \<and>
   taille (run_index url_page ''./dl'' acts_second_manifest (init_index bar_new)) = 2 \<and>
   bar1 (run_index url_page ''./dl'' acts_second_manifest (init_index bar_new)) =
     \<lparr>bar_total = 2, bar_value = 0\<rparr> \<and>
   bar1 (run_index url_page ''./dl'' acts_two_of_one (init_index bar_new)) =
     \<lparr>bar_total = 1, bar_value = 2\<rparr>"
  by (simp add: run_first_download run_second_manifest run_two_of_one run_index_second_manifest)

text \<open>
  C4. With a manifest of three images and two downloads finished the value of the bar
  is 2. The third download succeeds after two failed passes: \<open>downloadWithRetry\<close> sets
  the value to 1, and the \<^verbatim>\<open>then\<close> callback raises it to 2. Three downloads have
  finished and the value is 2; the completion of the third lowered it from 2 to 1.
\<close>

theorem retried_download_lowers_the_value:
  "bar_value (progressBar (run url_page ''./dl'' acts_two_done (init bar_new))) = 2 \<and>
   bar_value (progressBar (run url_page ''./dl''
     (acts_two_done @ [Downloaded 2 net_503_503_ok]) (init bar_new))) = 1 \<and>
   bar_value (progressBar (run url_page ''./dl''
     (acts_two_done @ [Downloaded 2 net_503_503_ok, ThenRuns 2]) (init bar_new))) = 2 \<and>
   list_all (\<lambda>t. phase t = Counted) (downloadQueue (run url_page ''./dl''
     (acts_two_done @ [Downloaded 2 net_503_503_ok, ThenRuns 2]) (init bar_new))) \<and>
   length (downloadQueue (run url_page ''./dl''
     (acts_two_done @ [Downloaded 2 net_503_503_ok, ThenRuns 2]) (init bar_new))) = 3"
  by (simp add: acts_two_done_def run_unfold)

section \<open>A URL that passes the filter and fails the extraction\<close>

text \<open>
  C7. When a URL passes the filter, fails the extraction pattern and has not been seen,
  the handler adds it to the URLs seen; then the destructuring throws. The handler of
  the variant with the \<^verbatim>\<open>try\<close> block catches the exception, logs it and enqueues
  nothing. The handler of \<^verbatim>\<open>src/index.ts\<close> has no \<^verbatim>\<open>try\<close> block: the exception
  leaves it as an unhandled rejection, and nothing is logged.
\<close>

theorem malformed_asset_url:
  "(asset_filter (resp_url r) \<and> asset_extract (resp_url r) = None \<and>
    \<not> (resp_url r = url \<and> resp_ok r) \<and> resp_url r \<notin> set (processedUrls st) \<longrightarrow>
      on_response url r st =
        st\<lparr>processedUrls := processedUrls st @ [resp_url r],
           console := console st @ [Err ''Erreur de traitement : null is not iterable'']\<rparr>) \<and>
   (asset_filter (resp_url r) \<and> asset_extract (resp_url r) = None \<and> resp_ok r \<and>
    resp_url r \<noteq> primary_url_index url \<and> resp_url r \<notin> set (urlPassed sti) \<longrightarrow>
      on_response_index url r sti =
        sti\<lparr>urlPassed := urlPassed sti @ [resp_url r],
            unhandled := unhandled sti @ [TypeError ''null is not iterable'']\<rparr>)"
  by (auto simp: on_response_def on_response_asset_def on_response_index_def
      on_response_asset_index_def)

theorem malformed_asset_url_witness:
  "on_response url_page (asset_response url_hyphen) (init bar_new) =
     (init bar_new)\<lparr>processedUrls := [url_hyphen],
       console := [Err ''Erreur de traitement : null is not iterable'']\<rparr> \<and>
   on_response_index url_page (asset_response url_hyphen) (init_index bar_new) =
     (init_index bar_new)\<lparr>urlPassed := [url_hyphen],
       unhandled := [TypeError ''null is not iterable'']\<rparr>"
  using malformed_asset_url[of "asset_response url_hyphen" url_page "init bar_new"
      "init_index bar_new"]
  by (simp add: asset_response_def examples_filter examples_extract examples_distinct
      primary_url_index_page init_def init_index_def)

section \<open>The expected total\<close>

text \<open>
  C8. When the body of the page holds the manifest pattern, the total is the number of
  commas between the brackets plus one, and the bar is started at the value 0 with that
  total, in both variants: 3 for \<^verbatim>\<open>[1,2,3]\<close>, and 1 for the empty list \<^verbatim>\<open>[]\<close>.
\<close>

theorem expected_total_counts_commas:
  "manifest_match (resp_text r) = Some images \<longrightarrow>
     on_response_manifest r st =
       (st\<lparr>totalImages := Suc (count_list images CHR '',''),
           console := console st @ [Log ''images detectees''],
           progressBar := \<lparr>bar_total = Suc (count_list images CHR '',''), bar_value = 0\<rparr>\<rparr>,
        None) \<and>
     on_response_manifest_index r sti =
       (sti\<lparr>taille := Suc (count_list images CHR '',''),
            bar1 := \<lparr>bar_total = Suc (count_list images CHR '',''), bar_value = 0\<rparr>\<rparr>,
        None)"
  by (simp add: on_response_manifest_def on_response_manifest_index_def length_split_on)

theorem expected_total_counts_commas_witness:
  "totalImages (fst (on_response_manifest (page_response body_0) (init bar_new))) = 1 \<and>
   progressBar (fst (on_response_manifest (page_response body_0) (init bar_new))) =
     \<lparr>bar_total = 1, bar_value = 0\<rparr> \<and>
   taille (fst (on_response_manifest_index (page_response body_0) (init_index bar_new))) = 1 \<and>
   totalImages (fst (on_response_manifest (page_response body_3) (init bar_new))) = 3 \<and>
   progressBar (fst (on_response_manifest (page_response body_3) (init bar_new))) =
     \<lparr>bar_total = 3, bar_value = 0\<rparr>"
  using expected_total_counts_commas[of "page_response body_0" "[]" "init bar_new"
      "init_index bar_new"]
    expected_total_counts_commas[of "page_response body_3" "''1,2,3''" "init bar_new"
      "init_index bar_new"]
  by (simp add: page_response_def examples_manifest)

end
